theory Spec2Isabelle
  imports Main
begin

section \<open>JavaScript values and the object heap\<close>

text \<open>
  The wrapper of \<^verbatim>\<open>src/modelize.ts\<close> keeps a reference to the caller's object and mutates
  it in place, so objects live in a heap and values refer to them by address. Values are the
  primitives and references to objects; \<open>NaN\<close> is kept apart from the other numbers because
  it is the one value that \<^verbatim>\<open>===\<close> does not relate to itself, and a function is a
  value of its own, named and compared by identity. The heap holds the own properties of an
  object: enumerable, writable data properties of an extensible object (no accessor of its
  own, no frozen object). What the wrapped object sees through its prototype chain is kept
  with the wrapper, below.
\<close>

type_synonym addr = nat

datatype jsval =
  Undefined | Null | Bool bool | Num int | NaN | Str string | Function string | Ref addr

text \<open>\<^verbatim>\<open>a === b\<close>; \<^verbatim>\<open>a !== b\<close> is its negation.\<close>

definition strict_eq :: "jsval \<Rightarrow> jsval \<Rightarrow> bool" where
  "strict_eq a b = (a \<noteq> NaN \<and> a = b)"

text \<open>
  What an object is: a plain object, an array, or an object of any other class (a
  \<^verbatim>\<open>Date\<close>, a \<^verbatim>\<open>Map\<close>, an instance of a user's class), named by its class and what it
  holds besides its properties.
\<close>

datatype kind = PlainObject | Array | Exotic string

text \<open>
  An object is its kind and its own properties in enumeration order (the order of
  \<^verbatim>\<open>for (key in obj)\<close> and \<^verbatim>\<open>Object.keys\<close>); the elements of an array are its
  index properties.
\<close>

type_synonym props = "(string \<times> jsval) list"
type_synonym jsobj = "kind \<times> props"
type_synonym heap = "jsobj list"

definition lookup :: "heap \<Rightarrow> addr \<Rightarrow> jsobj option" where
  "lookup h a = (if a < length h then Some (h ! a) else None)"

text \<open>\<^verbatim>\<open>{}\<close>, \<^verbatim>\<open>[]\<close>: a new object gets the next free address.\<close>

definition alloc :: "heap \<Rightarrow> jsobj \<Rightarrow> addr \<times> heap" where
  "alloc h c = (length h, h @ [c])"

text \<open>\<^verbatim>\<open>obj[key] = v\<close> on the property list: overwrite in place, or append a new property.\<close>

fun put :: "string \<Rightarrow> jsval \<Rightarrow> props \<Rightarrow> props" where
  "put k v [] = [(k, v)]"
| "put k v (p # ps) = (if fst p = k then (k, v) # ps else p # put k v ps)"

text \<open>\<^verbatim>\<open>Object.keys(obj)\<close>.\<close>

definition own_keys :: "heap \<Rightarrow> addr \<Rightarrow> string list" where
  "own_keys h a = (case lookup h a of None \<Rightarrow> [] | Some (_, ps) \<Rightarrow> map fst ps)"

text \<open>\<^verbatim>\<open>Object.prototype.hasOwnProperty.call(obj, key)\<close>: the key is an own property.\<close>

definition has_key :: "heap \<Rightarrow> addr \<Rightarrow> string \<Rightarrow> bool" where
  "has_key h a k = (k \<in> set (own_keys h a))"

text \<open>
  \<^verbatim>\<open>obj[key]\<close> as far as the own properties answer it: the value of the own property,
  \<open>undefined\<close> when there is none of that name.
\<close>

definition get_prop :: "heap \<Rightarrow> addr \<Rightarrow> string \<Rightarrow> jsval" where
  "get_prop h a k =
     (case lookup h a of
        None \<Rightarrow> Undefined
      | Some (_, ps) \<Rightarrow> (case map_of ps k of None \<Rightarrow> Undefined | Some v \<Rightarrow> v))"

definition set_prop :: "heap \<Rightarrow> addr \<Rightarrow> string \<Rightarrow> jsval \<Rightarrow> heap" where
  "set_prop h a k v =
     (case lookup h a of
        None \<Rightarrow> h
      | Some (kd, ps) \<Rightarrow> h[a := (kd, put k v ps)])"

text \<open>\<^verbatim>\<open>Reflect.set(target, prop, value, receiver)\<close>: the assignment and its success flag.\<close>

definition reflect_set :: "heap \<Rightarrow> addr \<Rightarrow> string \<Rightarrow> jsval \<Rightarrow> bool \<times> heap" where
  "reflect_set h a k v = (a < length h, set_prop h a k v)"

text \<open>\<^verbatim>\<open>Reflect.deleteProperty(target, prop)\<close>: succeeds whether or not the property exists.\<close>

definition reflect_deleteProperty :: "heap \<Rightarrow> addr \<Rightarrow> string \<Rightarrow> bool \<times> heap" where
  "reflect_deleteProperty h a k =
     (case lookup h a of
        None \<Rightarrow> (False, h)
      | Some (kd, ps) \<Rightarrow> (True, h[a := (kd, filter (\<lambda>p. fst p \<noteq> k) ps)]))"

section \<open>Errors, validation results, notifications\<close>

record validation_error =
  path :: string
  message :: string

text \<open>
  Everything the code throws: \<^verbatim>\<open>new Error(message)\<close>,
  \<^verbatim>\<open>new ModelizeValidationError(message, errors)\<close>, and the engine's
  \<^verbatim>\<open>RangeError\<close> when the recursion of \<^verbatim>\<open>deepClone\<close> exceeds the call stack.
\<close>

datatype error =
    Error string
  | ModelizeValidationError string "validation_error list"
  | RangeError

definition quoted :: "string \<Rightarrow> string" where
  "quoted key = CHR 0x22 # key @ [CHR 0x22]"

definition reserved_source_error :: "string \<Rightarrow> error" where
  "reserved_source_error key =
     Error (''Property '' @ quoted key @ '' is reserved and cannot be used in modelized objects'')"

definition reserved_set_error :: "string \<Rightarrow> error" where
  "reserved_set_error key = Error (''Cannot set reserved property '' @ quoted key)"

definition unknown_property_error :: "string \<Rightarrow> error" where
  "unknown_property_error key =
     Error (''Property '' @ quoted key @ '' does not exist on model (strict mode enabled)'')"

definition strict_delete_error :: "string \<Rightarrow> error" where
  "strict_delete_error key =
     Error (''Cannot delete property '' @ quoted key @ '' (strict mode enabled)'')"

text \<open>An \<^verbatim>\<open>ErrorObject\<close> of Ajv, as far as the code reads it.\<close>

record error_object =
  instancePath :: string
  e_message :: "string option"

text \<open>
  A compiled Ajv \<^verbatim>\<open>ValidateFunction\<close>: called on the model, it answers valid or not and
  leaves \<^verbatim>\<open>validator.errors\<close> (\<open>None\<close> for \<^verbatim>\<open>null\<close>).
\<close>

type_synonym validate_function = "heap \<Rightarrow> addr \<Rightarrow> bool \<times> error_object list option"

text \<open>The result of the custom validator: \<^verbatim>\<open>true | string\<close>.\<close>

datatype validator_result = VTrue | VMessage string

type_synonym custom_validator = "heap \<Rightarrow> addr \<Rightarrow> validator_result"

text \<open>Callbacks are identified as functions are in a \<^verbatim>\<open>Set\<close>: by identity.\<close>

type_synonym callback = nat

text \<open>The payload of a notification: the proxy, named by the object it wraps.\<close>

datatype detail = Proxy addr

text \<open>
  Subscribers run synchronously and receive the live proxy, so what a call or a publication
  carries is the wrapper as it is at that moment: the log keeps the dirty set, the own
  properties of the model and the registered subscribers seen then.
\<close>

record seen =
  seen_dirty :: "string list"
  seen_model :: props
  seen_subs :: "(string \<times> callback list) list"

record notification =
  n_event :: string
  n_detail :: detail
  n_seen :: seen

record call =
  c_callback :: callback
  c_arg :: detail
  c_seen :: seen

section \<open>The wrapper\<close>

text \<open>
  The closure of one call of \<^verbatim>\<open>modelize(source, options)\<close> together with the heap it
  works on: the options, the local variables \<^verbatim>\<open>dirty\<close>, \<^verbatim>\<open>initial\<close>,
  \<^verbatim>\<open>lastErrors\<close>, \<^verbatim>\<open>compiledValidator\<close>, the \<^verbatim>\<open>_subs\<close> map of its pub/sub,
  and two logs of its effects on the outside: every \<^verbatim>\<open>publish\<close> and every callback call.
  The schema type \<open>'s\<close> and \<open>ajv_compile\<close> (\<^verbatim>\<open>getAjv().compile\<close>) stand for the Ajv
  engine. A \<^verbatim>\<open>Set\<close> is a list without duplicates in insertion order.

  With them is what \<^verbatim>\<open>target\<close> has beyond the own properties that the heap holds: the
  properties that it inherits through its prototype chain (and a property of its own that
  is not enumerable, as the length of an array is). Each comes with the value that a read of
  it gives if it is a writable data property, and with \<open>None\<close> if reads and writes of it
  run code of its own that is not modelled (an accessor, the length of an array).
\<close>

type_synonym inherited_props = "(string \<times> jsval option) list"

record 's world =
  heap :: heap
  target :: addr
  inherited :: inherited_props
  schema :: "'s option"
  customValidator :: "custom_validator option"
  strict :: bool
  ajv_compile :: "'s \<Rightarrow> validate_function"
  dirty :: "string list"
  initial :: jsval
  lastErrors :: "validation_error list"
  compiledValidator :: "validate_function option"
  subs :: "(string \<times> callback list) list"
  published :: "notification list"
  calls :: "call list"

definition RESERVED_NAMES :: "string list" where
  "RESERVED_NAMES =
     [''__dirty'', ''__isDirty'', ''__isValid'', ''__source'', ''__initial'', ''__errors'',
      ''__validate'', ''__reset'', ''__resetToInitial'', ''__hydrate'', ''subscribe'']"

definition CHANGE_EVENT :: string where
  "CHANGE_EVENT = ''change''"

text \<open>\<^verbatim>\<open>Set.prototype.add\<close> and \<^verbatim>\<open>Set.prototype.delete\<close>.\<close>

definition set_add :: "'a \<Rightarrow> 'a list \<Rightarrow> 'a list" where
  "set_add x xs = (if x \<in> set xs then xs else xs @ [x])"

definition set_delete :: "'a \<Rightarrow> 'a list \<Rightarrow> 'a list" where
  "set_delete x xs = filter (\<lambda>y. y \<noteq> x) xs"

subsection \<open>createPubSub\<close>

text \<open>\<^verbatim>\<open>_subsFor(event)\<close>: creates the empty set of the event on first use.\<close>

definition subsFor_init :: "string \<Rightarrow> 's world \<Rightarrow> 's world" where
  "subsFor_init event w =
     (if event \<in> set (map fst (subs w)) then w else w\<lparr>subs := subs w @ [(event, [])]\<rparr>)"

definition subsFor :: "string \<Rightarrow> 's world \<Rightarrow> callback list" where
  "subsFor event w = (case map_of (subs w) event of None \<Rightarrow> [] | Some cbs \<Rightarrow> cbs)"

definition current_seen :: "'s world \<Rightarrow> seen" where
  "current_seen w =
     \<lparr>seen_dirty = dirty w,
      seen_model = (case lookup (heap w) (target w) of None \<Rightarrow> [] | Some (_, ps) \<Rightarrow> ps),
      seen_subs = subs w\<rparr>"

text \<open>\<^verbatim>\<open>cb(detail)\<close>: the call is logged; callbacks do not write to the wrapper.\<close>

definition invoke :: "detail \<Rightarrow> callback \<Rightarrow> 's world \<Rightarrow> 's world" where
  "invoke d cb w =
     w\<lparr>calls := calls w @ [\<lparr>c_callback = cb, c_arg = d, c_seen = current_seen w\<rparr>]\<rparr>"

text \<open>\<^verbatim>\<open>publish(event, detail)\<close>: \<^verbatim>\<open>_subsFor(event).forEach((cb) => cb(detail))\<close>.\<close>

definition publish :: "string \<Rightarrow> detail \<Rightarrow> 's world \<Rightarrow> 's world" where
  "publish event d w =
     (let w1 = subsFor_init event w;
          w2 = w1\<lparr>published := published w1 @
                  [\<lparr>n_event = event, n_detail = d, n_seen = current_seen w1\<rparr>]\<rparr>
      in fold (invoke d) (subsFor event w2) w2)"

text \<open>The closure returned by \<^verbatim>\<open>subscribe\<close>: \<^verbatim>\<open>() => _subsFor(event).delete(cb)\<close>.\<close>

datatype unsubscriber = Unsubscribe string callback

definition pubsub_subscribe :: "string \<Rightarrow> callback \<Rightarrow> 's world \<Rightarrow> unsubscriber \<times> 's world" where
  "pubsub_subscribe event cb w =
     (let w1 = subsFor_init event w
      in (Unsubscribe event cb,
          w1\<lparr>subs := map (\<lambda>(e, cbs). if e = event then (e, set_add cb cbs) else (e, cbs))
                         (subs w1)\<rparr>))"

fun call_unsubscriber :: "unsubscriber \<Rightarrow> 's world \<Rightarrow> bool \<times> 's world" where
  "call_unsubscriber (Unsubscribe event cb) w =
     (let w1 = subsFor_init event w
      in (cb \<in> set (subsFor event w1),
          w1\<lparr>subs := map (\<lambda>(e, cbs). if e = event then (e, set_delete cb cbs) else (e, cbs))
                         (subs w1)\<rparr>))"

subsection \<open>The proxy handler\<close>

definition proxy :: "'s world \<Rightarrow> detail" where
  "proxy w = Proxy (target w)"

text \<open>\<^verbatim>\<open>notify()\<close>.\<close>

definition notify :: "'s world \<Rightarrow> 's world" where
  "notify w = publish CHANGE_EVENT (proxy w) w"

text \<open>
  \<^verbatim>\<open>key in target\<close>: the key is an own property of the model or one that it inherits.
\<close>

definition key_in_target :: "'s world \<Rightarrow> string \<Rightarrow> bool" where
  "key_in_target w key =
     (has_key (heap w) (target w) key \<or> key \<in> set (map fst (inherited w)))"

text \<open>
  \<^verbatim>\<open>target[key]\<close> and \<^verbatim>\<open>Reflect.get(target, prop, receiver)\<close>: the own property, else
  the inherited one, else \<open>undefined\<close>.
\<close>

definition target_get :: "'s world \<Rightarrow> string \<Rightarrow> jsval" where
  "target_get w key =
     (if has_key (heap w) (target w) key then get_prop (heap w) (target w) key
      else case map_of (inherited w) key of Some (Some v) \<Rightarrow> v | _ \<Rightarrow> Undefined)"

text \<open>
  The \<^verbatim>\<open>set\<close> trap. The outcome is the thrown error or the returned success flag, with
  the world as it is when the trap is left.
\<close>

definition set_trap :: "string \<Rightarrow> jsval \<Rightarrow> 's world \<Rightarrow> (error + bool) \<times> 's world" where
  "set_trap key v w =
     (if key \<in> set RESERVED_NAMES then (Inl (reserved_set_error key), w)
      else if strict w \<and> \<not> key_in_target w key
        then (Inl (unknown_property_error key), w)
      else
        let oldValue = target_get w key;
            (success, h) = reflect_set (heap w) (target w) key v;
            w1 = w\<lparr>heap := h\<rparr>
        in if success \<and> \<not> strict_eq oldValue v
           then (Inr success, notify (w1\<lparr>dirty := set_add key (dirty w1)\<rparr>))
           else (Inr success, w1))"

text \<open>The \<^verbatim>\<open>deleteProperty\<close> trap.\<close>

definition deleteProperty :: "string \<Rightarrow> 's world \<Rightarrow> (error + bool) \<times> 's world" where
  "deleteProperty prop w =
     (if strict w then (Inl (strict_delete_error prop), w)
      else
        let (success, h) = reflect_deleteProperty (heap w) (target w) prop;
            w1 = w\<lparr>heap := h\<rparr>
        in if success then (Inr success, notify w1) else (Inr success, w1))"

subsection \<open>Validation\<close>

definition getCompiledValidator :: "'s world \<Rightarrow> validate_function option \<times> 's world" where
  "getCompiledValidator w =
     (case (schema w, compiledValidator w) of
        (Some s, None) \<Rightarrow>
          (let w1 = w\<lparr>compiledValidator := Some (ajv_compile w s)\<rparr>
           in (compiledValidator w1, w1))
      | _ \<Rightarrow> (compiledValidator w, w))"

definition ajvErrorsToValidationErrors :: "error_object list option \<Rightarrow> validation_error list" where
  "ajvErrorsToValidationErrors errors =
     (case errors of
        None \<Rightarrow> []
      | Some es \<Rightarrow>
          map (\<lambda>e. \<lparr>path = (if instancePath e = [] then ''/'' else instancePath e),
                     message = (case e_message e of
                                  None \<Rightarrow> ''Unknown validation error''
                                | Some m \<Rightarrow> if m = [] then ''Unknown validation error'' else m)\<rparr>)
              es)"

text \<open>The errors after the schema stage, and after the custom validator.\<close>

definition schema_stage ::
  "validate_function option \<Rightarrow> heap \<Rightarrow> addr \<Rightarrow> validation_error list \<Rightarrow> validation_error list" where
  "schema_stage validator h source errors =
     (case validator of
        None \<Rightarrow> errors
      | Some vf \<Rightarrow>
          (let (valid, errs) = vf h source
           in if \<not> valid then errors @ ajvErrorsToValidationErrors errs else errors))"

definition custom_stage ::
  "custom_validator option \<Rightarrow> heap \<Rightarrow> addr \<Rightarrow> validation_error list \<Rightarrow> validation_error list" where
  "custom_stage cv h source errors =
     (case cv of
        None \<Rightarrow> errors
      | Some f \<Rightarrow>
          (case f h source of
             VTrue \<Rightarrow> errors
           | VMessage result \<Rightarrow> errors @ [\<lparr>path = ''/'', message = result\<rparr>]))"

definition doValidate :: "'s world \<Rightarrow> (bool \<times> validation_error list) \<times> 's world" where
  "doValidate w =
     (let (validator, w1) = getCompiledValidator w;
          errors1 = schema_stage validator (heap w1) (target w1) [];
          errors2 = custom_stage (customValidator w1) (heap w1) (target w1) errors1
      in ((length errors2 = 0, errors2), w1))"

text \<open>\<^verbatim>\<open>__validate()\<close>.\<close>

definition validate_method :: "'s world \<Rightarrow> (error + bool) \<times> 's world" where
  "validate_method w =
     (let ((valid, errors), w1) = doValidate w;
          w2 = w1\<lparr>lastErrors := errors\<rparr>
      in if \<not> valid then (Inl (ModelizeValidationError ''Validation failed'' errors), w2)
         else (Inr True, w2))"

subsection \<open>deepClone\<close>

text \<open>
  The key of an element of an array: the decimal numeral, with no leading zero, of an index
  below \<open>2\<^sup>3\<^sup>2 - 1\<close>.
\<close>

definition digit :: "char \<Rightarrow> nat option" where
  "digit c =
     map_of [(CHR ''0'', 0), (CHR ''1'', 1), (CHR ''2'', 2), (CHR ''3'', 3), (CHR ''4'', 4),
             (CHR ''5'', 5), (CHR ''6'', 6), (CHR ''7'', 7), (CHR ''8'', 8), (CHR ''9'', 9)] c"

fun digits_value :: "string \<Rightarrow> nat \<Rightarrow> nat option" where
  "digits_value [] n = Some n"
| "digits_value (c # cs) n =
     (case digit c of None \<Rightarrow> None | Some d \<Rightarrow> digits_value cs (10 * n + d))"

fun is_index :: "string \<Rightarrow> bool" where
  "is_index [] = False"
| "is_index (c # cs) =
     (if c = CHR ''0'' then cs = []
      else case digits_value (c # cs) 0 of None \<Rightarrow> False | Some n \<Rightarrow> n < 4294967295)"

text \<open>
  The properties that \<^verbatim>\<open>deepClone\<close> visits: \<^verbatim>\<open>obj.map(deepClone)\<close> goes through the
  elements of an array and nothing else that the array may own; the \<^verbatim>\<open>for (key in obj)\<close>
  loop with its \<^verbatim>\<open>hasOwnProperty\<close> test goes through every own property of another
  object.
\<close>

definition cloned_props :: "kind \<Rightarrow> (string \<times> 'a) list \<Rightarrow> (string \<times> 'a) list" where
  "cloned_props kd ps = (if kd = Array then filter (\<lambda>p. is_index (fst p)) ps else ps)"

text \<open>
  The clone of a list of properties, left to right. The heap is threaded through, as every
  clone allocates.
\<close>

fun clone_props ::
  "(heap \<Rightarrow> jsval \<Rightarrow> (jsval \<times> heap) option) \<Rightarrow> heap \<Rightarrow> props \<Rightarrow> (props \<times> heap) option" where
  "clone_props f h [] = Some ([], h)"
| "clone_props f h ((k, v) # ps) =
     (case f h v of
        None \<Rightarrow> None
      | Some (v', h1) \<Rightarrow>
          (case clone_props f h1 ps of
             None \<Rightarrow> None
           | Some (ps', h2) \<Rightarrow> Some ((k, v') # ps', h2)))"

text \<open>
  What \<^verbatim>\<open>deepClone\<close> builds for an object: \<^verbatim>\<open>obj.map(deepClone)\<close> is a new array when
  \<^verbatim>\<open>Array.isArray(obj)\<close>; for every other object the clone starts as \<^verbatim>\<open>{}\<close>, a plain
  object.
\<close>

definition cloned_kind :: "kind \<Rightarrow> kind" where
  "cloned_kind kd = (if kd = Array then Array else PlainObject)"

text \<open>
  \<^verbatim>\<open>deepClone(obj)\<close>. The first argument bounds the depth of the recursion, as the call
  stack does: \<open>None\<close> is the engine giving up on a structure nested deeper than that
  (a cyclic one is). Primitives are returned as they are.
\<close>

primrec deepClone :: "nat \<Rightarrow> heap \<Rightarrow> jsval \<Rightarrow> (jsval \<times> heap) option" where
  "deepClone 0 = (\<lambda>h obj. case obj of Ref a \<Rightarrow> None | _ \<Rightarrow> Some (obj, h))"
| "deepClone (Suc n) = (\<lambda>h obj.
     case obj of
       Ref a \<Rightarrow>
         (case lookup h a of
            None \<Rightarrow> None
          | Some (kd, ps) \<Rightarrow>
              (case clone_props (deepClone n) h (cloned_props kd ps) of
                 None \<Rightarrow> None
               | Some (ps', h1) \<Rightarrow>
                   (let (c, h2) = alloc h1 (cloned_kind kd, ps') in Some (Ref c, h2))))
     | _ \<Rightarrow> Some (obj, h))"

subsection \<open>Construction and the methods\<close>

record 's options =
  o_schema :: "'s option"
  o_validate :: "custom_validator option"
  o_strict :: "bool option"

text \<open>
  \<^verbatim>\<open>modelize(source, options)\<close>, with the stack depth, the Ajv engine and what \<open>source\<close>
  inherits from its prototype chain as parameters.
\<close>

definition modelize ::
  "nat \<Rightarrow> ('s \<Rightarrow> validate_function) \<Rightarrow> inherited_props \<Rightarrow> heap \<Rightarrow> addr \<Rightarrow> 's options
     \<Rightarrow> error + 's world" where
  "modelize depth ajv chain h source options =
     (case find (\<lambda>key. key \<in> set RESERVED_NAMES) (own_keys h source) of
        Some key \<Rightarrow> Inl (reserved_source_error key)
      | None \<Rightarrow>
          (case deepClone depth h (Ref source) of
             None \<Rightarrow> Inl RangeError
           | Some (ini, h1) \<Rightarrow>
               Inr \<lparr>heap = h1, target = source, inherited = chain,
                    schema = o_schema options,
                    customValidator = o_validate options,
                    strict = (case o_strict options of None \<Rightarrow> True | Some b \<Rightarrow> b),
                    ajv_compile = ajv,
                    dirty = [], initial = ini, lastErrors = [],
                    compiledValidator = None, subs = [], published = [], calls = []\<rparr>))"

text \<open>\<^verbatim>\<open>__reset()\<close>.\<close>

definition reset_method :: "'s world \<Rightarrow> 's world" where
  "reset_method w = notify (w\<lparr>dirty := []\<rparr>)"

text \<open>\<^verbatim>\<open>obj[key]\<close> on a value: a primitive has no own properties.\<close>

definition member :: "heap \<Rightarrow> jsval \<Rightarrow> string \<Rightarrow> jsval" where
  "member h obj key = (case obj of Ref a \<Rightarrow> get_prop h a key | _ \<Rightarrow> Undefined)"

definition keys_of :: "heap \<Rightarrow> jsval \<Rightarrow> string list" where
  "keys_of h obj = (case obj of Ref a \<Rightarrow> own_keys h a | _ \<Rightarrow> [])"

text \<open>The loop of \<^verbatim>\<open>__resetToInitial()\<close> over the keys of \<^verbatim>\<open>initial\<close>.\<close>

fun restore_loop :: "nat \<Rightarrow> string list \<Rightarrow> 's world \<Rightarrow> (error + unit) \<times> 's world" where
  "restore_loop depth [] w = (Inr (), w)"
| "restore_loop depth (key # keys) w =
     (case deepClone depth (heap w) (member (heap w) (initial w) key) of
        None \<Rightarrow> (Inl RangeError, w)
      | Some (v, h) \<Rightarrow>
          restore_loop depth keys (w\<lparr>heap := set_prop h (target w) key v\<rparr>))"

definition resetToInitial :: "nat \<Rightarrow> 's world \<Rightarrow> (error + unit) \<times> 's world" where
  "resetToInitial depth w =
     (case restore_loop depth (keys_of (heap w) (initial w)) w of
        (Inl e, w1) \<Rightarrow> (Inl e, w1)
      | (Inr _, w1) \<Rightarrow> (Inr (), notify (w1\<lparr>dirty := []\<rparr>)))"

text \<open>One turn of the loop of \<^verbatim>\<open>__hydrate(data, opts)\<close>, for one key of \<open>data\<close>.\<close>

definition hydrate_key :: "string \<Rightarrow> jsval \<Rightarrow> 's world \<Rightarrow> (error + unit) \<times> 's world" where
  "hydrate_key key newValue w =
     (if strict w \<and> \<not> key_in_target w key
        then (Inl (unknown_property_error key), w)
      else
        let oldValue = target_get w key;
            w1 = w\<lparr>heap := set_prop (heap w) (target w) key newValue\<rparr>
        in if \<not> strict_eq oldValue newValue
           then (Inr (), w1\<lparr>dirty := set_add key (dirty w1)\<rparr>)
           else (Inr (), w1))"

text \<open>
  The loop; \<open>data\<close> is given as its own properties in enumeration order. A throw leaves
  the loop with the world as it is then.
\<close>

fun hydrate_loop :: "props \<Rightarrow> 's world \<Rightarrow> (error + unit) \<times> 's world" where
  "hydrate_loop [] w = (Inr (), w)"
| "hydrate_loop ((key, newValue) # rest) w =
     (case hydrate_key key newValue w of
        (Inl e, w1) \<Rightarrow> (Inl e, w1)
      | (Inr _, w1) \<Rightarrow> hydrate_loop rest w1)"

definition hydrate :: "props \<Rightarrow> bool \<Rightarrow> 's world \<Rightarrow> (error + unit) \<times> 's world" where
  "hydrate data resetDirty w =
     (case hydrate_loop data w of
        (Inl e, w1) \<Rightarrow> (Inl e, w1)
      | (Inr _, w1) \<Rightarrow> (Inr (), notify (if resetDirty then w1\<lparr>dirty := []\<rparr> else w1)))"

text \<open>\<^verbatim>\<open>subscribe(callback)\<close>: the call, then the registration.\<close>

definition subscribe :: "callback \<Rightarrow> 's world \<Rightarrow> unsubscriber \<times> 's world" where
  "subscribe cb w = pubsub_subscribe CHANGE_EVENT cb (invoke (proxy w) cb w)"

subsection \<open>The get trap\<close>

datatype bound_method = M_validate | M_reset | M_resetToInitial | M_hydrate | M_subscribe

datatype get_result =
    GSet "string list"
  | GBool bool
  | GValue jsval
  | GErrors "validation_error list"
  | GMethod bound_method

definition get_trap :: "string \<Rightarrow> 's world \<Rightarrow> get_result \<times> 's world" where
  "get_trap prop w =
     (if prop = ''__dirty'' then (GSet (dirty w), w)
      else if prop = ''__isDirty'' then (GBool (length (dirty w) > 0), w)
      else if prop = ''__isValid'' then
        (let ((valid, errors), w1) = doValidate w
         in (GBool valid, w1\<lparr>lastErrors := errors\<rparr>))
      else if prop = ''__source'' then (GValue (Ref (target w)), w)
      else if prop = ''__initial'' then (GValue (initial w), w)
      else if prop = ''__errors'' then (GErrors (lastErrors w), w)
      else if prop = ''__validate'' then (GMethod M_validate, w)
      else if prop = ''__reset'' then (GMethod M_reset, w)
      else if prop = ''__resetToInitial'' then (GMethod M_resetToInitial, w)
      else if prop = ''__hydrate'' then (GMethod M_hydrate, w)
      else if prop = ''subscribe'' then (GMethod M_subscribe, w)
      else (GValue (target_get w prop), w))"

section \<open>What the statements observe\<close>

text \<open>
  Deep equality compares what is reachable from a value, not addresses: the unfolding of a
  value into a tree, to the same depth bound as \<open>deepClone\<close>.
\<close>

datatype tree = Leaf jsval | Node kind "(string \<times> tree) list"

fun deep_props ::
  "(heap \<Rightarrow> jsval \<Rightarrow> tree option) \<Rightarrow> heap \<Rightarrow> props \<Rightarrow> (string \<times> tree) list option" where
  "deep_props f h [] = Some []"
| "deep_props f h ((k, v) # ps) =
     (case f h v of
        None \<Rightarrow> None
      | Some t \<Rightarrow> (case deep_props f h ps of None \<Rightarrow> None | Some ts \<Rightarrow> Some ((k, t) # ts)))"

primrec deep_value :: "nat \<Rightarrow> heap \<Rightarrow> jsval \<Rightarrow> tree option" where
  "deep_value 0 = (\<lambda>h v. case v of Ref a \<Rightarrow> None | _ \<Rightarrow> Some (Leaf v))"
| "deep_value (Suc n) = (\<lambda>h v.
     case v of
       Ref a \<Rightarrow>
         (case lookup h a of
            None \<Rightarrow> None
          | Some (kd, ps) \<Rightarrow>
              (case deep_props (deep_value n) h ps of
                 None \<Rightarrow> None
               | Some ts \<Rightarrow> Some (Node kd ts)))
     | _ \<Rightarrow> Some (Leaf v))"

text \<open>
  The same tree with every array reduced to its elements and every other object made a plain
  object.
\<close>

primrec plain :: "tree \<Rightarrow> tree" where
  "plain (Leaf v) = Leaf v"
| "plain (Node kd ts) = Node (cloned_kind kd) (cloned_props kd (map (map_prod id plain) ts))"


text \<open>How often a callback has been called so far.\<close>

definition times_called :: "callback \<Rightarrow> 's world \<Rightarrow> nat" where
  "times_called cb w = length (filter (\<lambda>c. c_callback c = cb) (calls w))"

text \<open>
  The heaps \<open>h\<close> and \<open>g\<close> both hold the addresses from \<open>lo\<close> up to \<open>hi\<close>, and hold the same
  objects there.
\<close>

definition same_cells :: "nat \<Rightarrow> nat \<Rightarrow> heap \<Rightarrow> heap \<Rightarrow> bool" where
  "same_cells lo hi h g =
     (hi \<le> length h \<and> hi \<le> length g \<and> drop lo (take hi g) = drop lo (take hi h))"

section \<open>Concrete wrappers\<close>

text \<open>
  What an object written as a literal \<^verbatim>\<open>{ ... }\<close> inherits: the properties of
  \<^verbatim>\<open>Object.prototype\<close> as ECMAScript lists them, all of them functions but the accessor
  \<^verbatim>\<open>__proto__\<close>.
\<close>

definition Object_prototype :: inherited_props where
  "Object_prototype =
     [(''constructor'', Some (Function ''Object'')),
      (''__defineGetter__'', Some (Function ''Object.prototype.__defineGetter__'')),
      (''__defineSetter__'', Some (Function ''Object.prototype.__defineSetter__'')),
      (''hasOwnProperty'', Some (Function ''Object.prototype.hasOwnProperty'')),
      (''__lookupGetter__'', Some (Function ''Object.prototype.__lookupGetter__'')),
      (''__lookupSetter__'', Some (Function ''Object.prototype.__lookupSetter__'')),
      (''isPrototypeOf'', Some (Function ''Object.prototype.isPrototypeOf'')),
      (''propertyIsEnumerable'', Some (Function ''Object.prototype.propertyIsEnumerable'')),
      (''toString'', Some (Function ''Object.prototype.toString'')),
      (''valueOf'', Some (Function ''Object.prototype.valueOf'')),
      (''__proto__'', None),
      (''toLocaleString'', Some (Function ''Object.prototype.toLocaleString''))]"

text \<open>
  \<^verbatim>\<open>modelize({ name: "John", age: 30 })\<close> with default options, on a heap that holds only
  the source object; the engine \<open>no_ajv\<close> is never asked, there being no schema.
\<close>

definition no_ajv :: "unit \<Rightarrow> validate_function" where
  "no_ajv s = (\<lambda>h a. (True, None))"

definition john_heap :: heap where
  "john_heap = [(PlainObject, [(''name'', Str ''John''), (''age'', Num 30)])]"

definition john :: "unit world" where
  "john =
     \<lparr>heap = john_heap @ [(PlainObject, [(''name'', Str ''John''), (''age'', Num 30)])],
      target = 0, inherited = Object_prototype, schema = None, customValidator = None,
      strict = True,
      ajv_compile = no_ajv, dirty = [], initial = Ref 1, lastErrors = [],
      compiledValidator = None, subs = [], published = [], calls = []\<rparr>"



text \<open>The same wrapper built with \<^verbatim>\<open>strict: false\<close>.\<close>

definition john_lax :: "unit world" where
  "john_lax = john\<lparr>strict := False\<rparr>"

text \<open>
  \<^verbatim>\<open>modelize({ age: -5, status: "invalid" }, { schema, validate })\<close>: the schema asks for
  a number \<open>age >= 0\<close>, the custom validator for a status that is active or inactive.
\<close>

definition age_schema :: "unit \<Rightarrow> validate_function" where
  "age_schema s = (\<lambda>h a.
     case get_prop h a ''age'' of
       Num n \<Rightarrow>
         if 0 \<le> n then (True, None)
         else (False, Some [\<lparr>instancePath = ''/age'', e_message = Some ''must be >= 0''\<rparr>])
     | _ \<Rightarrow> (False, Some [\<lparr>instancePath = ''/age'', e_message = Some ''must be number''\<rparr>]))"

definition status_validator :: custom_validator where
  "status_validator h a =
     (if get_prop h a ''status'' = Str ''active'' \<or> get_prop h a ''status'' = Str ''inactive''
      then VTrue else VMessage ''Status must be active or inactive'')"

definition account :: "unit world" where
  "account =
     \<lparr>heap = [(PlainObject, [(''age'', Num (- 5)), (''status'', Str ''invalid'')]),
              (PlainObject, [(''age'', Num (- 5)), (''status'', Str ''invalid'')])],
      target = 0, inherited = Object_prototype, schema = Some (),
      customValidator = Some status_validator, strict = True,
      ajv_compile = age_schema, dirty = [], initial = Ref 1, lastErrors = [],
      compiledValidator = None, subs = [], published = [], calls = []\<rparr>"

text \<open>
  \<^verbatim>\<open>modelize({ data: { value: 1 } })\<close>, and the same wrapper after
  \<^verbatim>\<open>model.data.value = 999\<close>, a write into the nested object that the proxy does not see.
\<close>

definition nested_heap :: heap where
  "nested_heap = [(PlainObject, [(''data'', Ref 1)]), (PlainObject, [(''value'', Num 1)])]"

definition nested :: "unit world" where
  "nested =
     \<lparr>heap = nested_heap @ [(PlainObject, [(''value'', Num 1)]), (PlainObject, [(''data'', Ref 2)])],
      target = 0, inherited = Object_prototype, schema = None, customValidator = None,
      strict = True,
      ajv_compile = no_ajv, dirty = [], initial = Ref 3, lastErrors = [],
      compiledValidator = None, subs = [], published = [], calls = []\<rparr>"

definition nested_mutated :: "unit world" where
  "nested_mutated = nested\<lparr>heap := set_prop (heap nested) 1 ''value'' (Num 999)\<rparr>"

text \<open>
  \<^verbatim>\<open>modelize({ created: new Date(0) })\<close>: the property holds an object that is neither
  an array nor a plain object. It has no enumerable properties of its own.
\<close>

definition dated_heap :: heap where
  "dated_heap = [(PlainObject, [(''created'', Ref 1)]), (Exotic ''Date(0)'', [])]"

definition dated :: "unit world" where
  "dated =
     \<lparr>heap = dated_heap @ [(PlainObject, []), (PlainObject, [(''created'', Ref 2)])],
      target = 0, inherited = Object_prototype, schema = None, customValidator = None,
      strict = True,
      ajv_compile = no_ajv, dirty = [], initial = Ref 3, lastErrors = [],
      compiledValidator = None, subs = [], published = [], calls = []\<rparr>"

section \<open>Properties of the heap and of the pub/sub\<close>

lemma cloned_kind_simps [simp]:
  "cloned_kind PlainObject = PlainObject" "cloned_kind Array = Array"
  "cloned_kind (Exotic c) = PlainObject"
  by (simp_all add: cloned_kind_def)

lemma cloned_props_simps [simp]:
  "cloned_props PlainObject ps = ps" "cloned_props (Exotic c) ps = ps"
  "cloned_props Array ps = filter (\<lambda>p. is_index (fst p)) ps"
  by (simp_all add: cloned_props_def)

text \<open>The concrete wrappers are what \<open>modelize\<close> returns.\<close>

lemma modelize_john:
  "modelize 4 no_ajv Object_prototype john_heap 0
     \<lparr>o_schema = None, o_validate = None, o_strict = None\<rparr> = Inr john"
  by (simp add: modelize_def john_def john_heap_def own_keys_def lookup_def RESERVED_NAMES_def
      eval_nat_numeral alloc_def)

lemma modelize_john_lax:
  "modelize 4 no_ajv Object_prototype john_heap 0
     \<lparr>o_schema = None, o_validate = None, o_strict = Some False\<rparr>
     = Inr john_lax"
  by (simp add: modelize_def john_lax_def john_def john_heap_def own_keys_def lookup_def
      RESERVED_NAMES_def eval_nat_numeral alloc_def)

lemma modelize_account:
  "modelize 4 age_schema Object_prototype
     [(PlainObject, [(''age'', Num (- 5)), (''status'', Str ''invalid'')])] 0
     \<lparr>o_schema = Some (), o_validate = Some status_validator, o_strict = None\<rparr> = Inr account"
  by (simp add: modelize_def account_def own_keys_def lookup_def RESERVED_NAMES_def
      eval_nat_numeral alloc_def)

text \<open>A source object with a reserved key is refused before anything is built.\<close>

lemma modelize_reserved:
  "modelize 4 no_ajv Object_prototype [(PlainObject, [(''__dirty'', Str ''value'')])] 0
     \<lparr>o_schema = None, o_validate = None, o_strict = None\<rparr>
     = Inl (reserved_source_error ''__dirty'')"
  by (simp add: modelize_def own_keys_def lookup_def RESERVED_NAMES_def)

lemma current_seen_invoke: "current_seen (invoke d cb w) = current_seen w"
  by (simp add: current_seen_def invoke_def)

lemma fold_invoke:
  "fold (invoke d) cbs w =
     w\<lparr>calls := calls w @ map (\<lambda>cb. \<lparr>c_callback = cb, c_arg = d, c_seen = current_seen w\<rparr>) cbs\<rparr>"
proof (induction cbs arbitrary: w)
  case Nil
  show ?case by simp
next
  case (Cons cb cbs)
  show ?case
    by (simp add: Cons.IH current_seen_invoke) (simp add: invoke_def)
qed

lemma subsFor_published_upd: "subsFor e (w\<lparr>published := p\<rparr>) = subsFor e w"
  by (simp add: subsFor_def)

lemma current_seen_published_upd: "current_seen (w\<lparr>published := p\<rparr>) = current_seen w"
  by (simp add: current_seen_def)

lemma publish_eq:
  "publish e d w =
     (subsFor_init e w)
       \<lparr>published := published w @ [\<lparr>n_event = e, n_detail = d, n_seen = current_seen (subsFor_init e w)\<rparr>],
        calls := calls w @ map (\<lambda>cb. \<lparr>c_callback = cb, c_arg = d, c_seen = current_seen (subsFor_init e w)\<rparr>)
                           (subsFor e (subsFor_init e w))\<rparr>"
  by (simp add: publish_def Let_def fold_invoke subsFor_published_upd current_seen_published_upd)
     (simp add: subsFor_init_def)

lemma subsFor_init_fields [simp]:
  "heap (subsFor_init e w) = heap w" "target (subsFor_init e w) = target w"
  "dirty (subsFor_init e w) = dirty w" "lastErrors (subsFor_init e w) = lastErrors w"
  "initial (subsFor_init e w) = initial w" "strict (subsFor_init e w) = strict w"
  "published (subsFor_init e w) = published w" "calls (subsFor_init e w) = calls w"
  "schema (subsFor_init e w) = schema w" "customValidator (subsFor_init e w) = customValidator w"
  "compiledValidator (subsFor_init e w) = compiledValidator w"
  "ajv_compile (subsFor_init e w) = ajv_compile w"
  "inherited (subsFor_init e w) = inherited w"
  by (simp_all add: subsFor_init_def)

lemma notify_fields:
  "heap (notify w) = heap w" "target (notify w) = target w"
  "dirty (notify w) = dirty w" "lastErrors (notify w) = lastErrors w"
  "initial (notify w) = initial w" "strict (notify w) = strict w"
  "schema (notify w) = schema w" "customValidator (notify w) = customValidator w"
  "compiledValidator (notify w) = compiledValidator w"
  "ajv_compile (notify w) = ajv_compile w"
  "inherited (notify w) = inherited w"
  by (simp_all add: notify_def publish_eq)

lemma notify_published:
  "published (notify w) =
     published w @ [\<lparr>n_event = CHANGE_EVENT, n_detail = proxy w,
                      n_seen = current_seen (subsFor_init CHANGE_EVENT w)\<rparr>]"
  by (simp add: notify_def publish_eq)

lemma map_of_put_same: "map_of (put k v ps) k = Some v"
  by (induction ps) auto

lemma map_of_put_other: "k' \<noteq> k \<Longrightarrow> map_of (put k v ps) k' = map_of ps k'"
  by (induction ps) auto

lemma keys_put: "set (map fst (put k v ps)) = insert k (set (map fst ps))"
  by (induction ps) auto

lemma has_key_allocated: "has_key h a k \<Longrightarrow> a < length h"
  by (auto simp: has_key_def own_keys_def lookup_def split: if_splits)

lemma own_key_in_target: "has_key (heap w) (target w) k \<Longrightarrow> key_in_target w k"
  by (simp add: key_in_target_def)


lemma target_get_own:
  "has_key (heap w) (target w) k \<Longrightarrow> target_get w k = get_prop (heap w) (target w) k"
  by (simp add: target_get_def)

lemma get_prop_set_prop_same: "a < length h \<Longrightarrow> get_prop (set_prop h a k v) a k = v"
  by (simp add: get_prop_def set_prop_def lookup_def map_of_put_same split: prod.splits)

lemma get_prop_set_prop_other:
  "k' \<noteq> k \<Longrightarrow> get_prop (set_prop h a k v) a k' = get_prop h a k'"
  by (simp add: get_prop_def set_prop_def lookup_def map_of_put_other split: prod.splits)

lemma lookup_set_prop_same:
  "a < length h \<Longrightarrow> lookup (set_prop h a k v) a = Some (fst (h ! a), put k v (snd (h ! a)))"
  by (simp add: set_prop_def lookup_def split: prod.splits)

lemma length_set_prop [simp]: "length (set_prop h a k v) = length h"
  by (simp add: set_prop_def split: option.splits prod.splits)

lemma has_key_set_prop_same: "a < length h \<Longrightarrow> has_key (set_prop h a k v) a k"
  using keys_put [of k v "snd (h ! a)"]
  by (simp add: has_key_def own_keys_def lookup_set_prop_same)

lemma set_add_set: "set (set_add x xs) = insert x (set xs)"
  by (auto simp: set_add_def)

lemma set_add_idem: "set_add x (set_add x xs) = set_add x xs"
  by (simp add: set_add_def)

lemma set_add_distinct: "distinct xs \<Longrightarrow> distinct (set_add x xs)"
  by (simp add: set_add_def)

section \<open>Writes through the proxy\<close>

text \<open>
  Claim C1. A write of \<open>v\<close> to a key that is not reserved and is present on the model returns
  \<open>true\<close> and leaves \<open>v\<close> in the model. If the old value \<^verbatim>\<open>!==\<close> \<open>v\<close>, the key is added
  to the dirty set and exactly one notification is published, for the change event, carrying
  the proxy, and published after the assignment and the addition (it sees both). If the old
  value \<^verbatim>\<open>===\<close> \<open>v\<close>, the dirty set is unchanged, nothing is published and no callback is
  called. Writing the same value a second time leaves the dirty set as the first write left it.
\<close>

theorem set_existing_key:
  fixes w :: "'s world" and v :: jsval and key :: string
  assumes "key \<notin> set RESERVED_NAMES" and "has_key (heap w) (target w) key"
  defines "old \<equiv> get_prop (heap w) (target w) key"
  defines "w1 \<equiv> snd (set_trap key v w)"
  shows "fst (set_trap key v w) = Inr True
       \<and> get_prop (heap w1) (target w1) key = v
       \<and> (if strict_eq old v
           then dirty w1 = dirty w \<and> published w1 = published w \<and> calls w1 = calls w
           else dirty w1 = set_add key (dirty w) \<and> key \<in> set (dirty w1)
              \<and> (\<exists>n. published w1 = published w @ [n] \<and> n_event n = CHANGE_EVENT
                      \<and> n_detail n = proxy w \<and> seen_dirty (n_seen n) = dirty w1
                      \<and> map_of (seen_model (n_seen n)) key = Some v))
       \<and> dirty (snd (set_trap key v w1)) = dirty w1"
proof -
  have a: "target w < length (heap w)" using assms(2) by (rule has_key_allocated)
  have kin: "key_in_target w key" using assms(2) by (rule own_key_in_target)
  have tg: "target_get w key = old" using assms(2) by (simp add: old_def target_get_own)
  have r: "fst (set_trap key v w) = Inr True"
    using assms(1) kin a by (simp add: set_trap_def reflect_set_def Let_def)
  have w1: "w1 = (if strict_eq old v then w\<lparr>heap := set_prop (heap w) (target w) key v\<rparr>
                  else notify (w\<lparr>heap := set_prop (heap w) (target w) key v,
                                  dirty := set_add key (dirty w)\<rparr>))"
    using assms(1) kin a by (simp add: w1_def tg set_trap_def reflect_set_def Let_def)
  have h1: "heap w1 = set_prop (heap w) (target w) key v" and t1: "target w1 = target w"
    and s1: "strict w1 = strict w"
    by (simp_all add: w1 notify_fields)
  have g: "get_prop (heap w1) (target w1) key = v"
    by (simp add: h1 t1 a get_prop_set_prop_same)
  have k1: "has_key (heap w1) (target w1) key"
    by (simp add: h1 t1 a has_key_set_prop_same)
  have a1: "target w1 < length (heap w1)" by (simp add: h1 t1 a)
  have kin1: "key_in_target w1 key" using k1 by (rule own_key_in_target)
  have tg1: "target_get w1 key = get_prop (heap w1) (target w1) key"
    using k1 by (rule target_get_own)
  have d1: "dirty w1 = (if strict_eq old v then dirty w else set_add key (dirty w))"
    by (simp add: w1 notify_fields)
  have mid: "if strict_eq old v
           then dirty w1 = dirty w \<and> published w1 = published w \<and> calls w1 = calls w
           else dirty w1 = set_add key (dirty w) \<and> key \<in> set (dirty w1)
              \<and> (\<exists>n. published w1 = published w @ [n] \<and> n_event n = CHANGE_EVENT
                      \<and> n_detail n = proxy w \<and> seen_dirty (n_seen n) = dirty w1
                      \<and> map_of (seen_model (n_seen n)) key = Some v)"
  proof (cases "strict_eq old v")
    case True
    then show ?thesis by (simp add: w1)
  next
    case False
    have "map_of (seen_model (current_seen (subsFor_init CHANGE_EVENT
             (w\<lparr>heap := set_prop (heap w) (target w) key v, dirty := set_add key (dirty w)\<rparr>)))) key = Some v"
      using a by (simp add: current_seen_def lookup_set_prop_same map_of_put_same)
    with False show ?thesis
      by (simp add: w1 d1 notify_fields notify_published set_add_set proxy_def current_seen_def)
  qed
  have twice: "dirty (snd (set_trap key v w1)) = dirty w1"
  proof (cases "strict_eq (get_prop (heap w1) (target w1) key) v")
    case True
    then show ?thesis
      using assms(1) kin1 a1 by (simp add: set_trap_def tg1 reflect_set_def Let_def)
  next
    case False
    then have "v = NaN" using g by (simp add: strict_eq_def)
    then have "\<not> strict_eq old v" by (auto simp: strict_eq_def)
    then have "dirty w1 = set_add key (dirty w)" by (simp add: d1)
    then show ?thesis
      using assms(1) kin1 a1 False
      by (simp add: set_trap_def tg1 reflect_set_def Let_def notify_fields set_add_idem)
  qed
  from r g mid twice show ?thesis by blast
qed

theorem set_existing_key_witness:
  "''name'' \<notin> set RESERVED_NAMES \<and> has_key (heap john) (target john) ''name''
   \<and> fst (set_trap ''name'' (Str ''Jane'') john) = Inr True
   \<and> dirty (snd (set_trap ''name'' (Str ''Jane'') john)) = [''name'']
   \<and> dirty (snd (set_trap ''name'' (Str ''Jane'') (snd (set_trap ''name'' (Str ''Jane'') john))))
       = [''name'']"
proof -
  have h1: "''name'' \<notin> set RESERVED_NAMES" by (simp add: RESERVED_NAMES_def)
  have h2: "has_key (heap john) (target john) ''name''"
    by (simp add: has_key_def own_keys_def lookup_def john_def john_heap_def)
  have old: "\<not> strict_eq (get_prop (heap john) (target john) ''name'') (Str ''Jane'')"
    by (simp add: strict_eq_def get_prop_def lookup_def john_def john_heap_def)
  have d: "dirty john = []" by (simp add: john_def)
  from set_existing_key [OF h1 h2, of "Str ''Jane''"] old d h1 h2 show ?thesis
    by (simp add: set_add_def)
qed

text \<open>
  Claim C9. A write that throws leaves the whole world as it was, so in particular the model,
  the dirty set, the last errors and both logs; and it throws for one of two reasons only:
  the key is reserved, or strict mode is on and the key is absent from the model: it is
  not an own property of the model, and \<^verbatim>\<open>in\<close> does not find it among the inherited ones
  either.
\<close>

theorem failed_set_is_atomic:
  fixes w :: "'s world"
  assumes "fst (set_trap key v w) = Inl e"
  shows "snd (set_trap key v w) = w
       \<and> heap (snd (set_trap key v w)) = heap w
       \<and> dirty (snd (set_trap key v w)) = dirty w
       \<and> lastErrors (snd (set_trap key v w)) = lastErrors w
       \<and> published (snd (set_trap key v w)) = published w
       \<and> calls (snd (set_trap key v w)) = calls w
       \<and> e = (if key \<in> set RESERVED_NAMES then reserved_set_error key
              else unknown_property_error key)
       \<and> (key \<in> set RESERVED_NAMES \<or> strict w \<and> \<not> has_key (heap w) (target w) key)
       \<and> (key \<in> set RESERVED_NAMES \<or> strict w \<and> \<not> key_in_target w key)"
  using assms
  by (auto simp: set_trap_def Let_def dest: own_key_in_target split: if_splits prod.splits)

theorem failed_set_is_atomic_witness:
  "fst (set_trap ''email'' (Str ''j@x'') john) = Inl (unknown_property_error ''email'')
   \<and> snd (set_trap ''email'' (Str ''j@x'') john) = john"
proof -
  have h: "fst (set_trap ''email'' (Str ''j@x'') john) = Inl (unknown_property_error ''email'')"
    by (simp add: set_trap_def RESERVED_NAMES_def key_in_target_def Object_prototype_def
        has_key_def own_keys_def lookup_def john_def john_heap_def)
  from failed_set_is_atomic [OF h] h show ?thesis by simp
qed

lemma notify_calls:
  "calls (notify w) =
     calls w @ map (\<lambda>cb. \<lparr>c_callback = cb, c_arg = proxy w,
                             c_seen = current_seen (subsFor_init CHANGE_EVENT w)\<rparr>)
                   (subsFor CHANGE_EVENT (subsFor_init CHANGE_EVENT w))"
  by (simp add: notify_def publish_eq)

section \<open>Deleting through the proxy\<close>

text \<open>
  Claim C7. In strict mode a delete throws the strict-mode error and the world (so the model)
  is unchanged. Otherwise the delete is done on the model: the property is gone, the other
  properties are as before, and on success exactly one change notification carrying the
  proxy is published, whether or not the property existed. The dirty set is the same before
  and after, and the notification sees it so.
\<close>

theorem delete_semantics:
  fixes w :: "'s world" and key :: string
  defines "w1 \<equiv> snd (deleteProperty key w)"
  shows "if strict w
         then deleteProperty key w = (Inl (strict_delete_error key), w)
         else dirty w1 = dirty w
            \<and> fst (deleteProperty key w) = Inr (target w < length (heap w))
            \<and> \<not> has_key (heap w1) (target w1) key
            \<and> (\<forall>k. k \<noteq> key \<longrightarrow> get_prop (heap w1) (target w1) k = get_prop (heap w) (target w) k
                                \<and> has_key (heap w1) (target w1) k = has_key (heap w) (target w) k)
            \<and> (if fst (deleteProperty key w) = Inr True
                then \<exists>n. published w1 = published w @ [n] \<and> n_event n = CHANGE_EVENT
                       \<and> n_detail n = proxy w \<and> seen_dirty (n_seen n) = dirty w
                       \<and> key \<notin> set (map fst (seen_model (n_seen n)))
                else published w1 = published w)"
proof (cases "strict w")
  case True
  then show ?thesis by (simp add: deleteProperty_def)
next
  case False
  show ?thesis
  proof (cases "target w < length (heap w)")
    case True
    obtain kd ps where c: "heap w ! target w = (kd, ps)" by (cases "heap w ! target w")
    have w1: "w1 = notify (w\<lparr>heap := (heap w)[target w := (kd, filter (\<lambda>p. fst p \<noteq> key) ps)]\<rparr>)"
      using False True c
      by (simp add: w1_def deleteProperty_def reflect_deleteProperty_def lookup_def)
    have r: "fst (deleteProperty key w) = Inr True"
      using False True c
      by (simp add: deleteProperty_def reflect_deleteProperty_def lookup_def)
    have mo: "\<And>k. k \<noteq> key \<Longrightarrow> map_of (filter (\<lambda>p. fst p \<noteq> key) ps) k = map_of ps k"
      by (induction ps) auto
    have "\<forall>k. k \<noteq> key \<longrightarrow> get_prop (heap w1) (target w1) k = get_prop (heap w) (target w) k
                          \<and> has_key (heap w1) (target w1) k = has_key (heap w) (target w) k"
      using True c
      by (auto simp: w1 notify_fields get_prop_def has_key_def own_keys_def lookup_def mo)
    moreover have "\<not> has_key (heap w1) (target w1) key"
      using True by (auto simp: w1 notify_fields has_key_def own_keys_def lookup_def)
    moreover have "\<exists>n. published w1 = published w @ [n] \<and> n_event n = CHANGE_EVENT
                       \<and> n_detail n = proxy w \<and> seen_dirty (n_seen n) = dirty w
                       \<and> key \<notin> set (map fst (seen_model (n_seen n)))"
      using True
      by (auto simp: w1 notify_published proxy_def current_seen_def lookup_def)
    moreover have "dirty w1 = dirty w" by (simp add: w1 notify_fields)
    ultimately show ?thesis using False True r by simp
  next
    case F2: False
    then have "deleteProperty key w = (Inr False, w)"
      using False by (simp add: deleteProperty_def reflect_deleteProperty_def lookup_def)
    then show ?thesis
      using False F2 by (simp add: w1_def has_key_def own_keys_def lookup_def)
  qed
qed

theorem delete_semantics_witness:
  "\<not> strict john_lax
   \<and> fst (deleteProperty ''age'' john_lax) = Inr True
   \<and> dirty (snd (deleteProperty ''age'' john_lax)) = []
   \<and> \<not> has_key (heap (snd (deleteProperty ''age'' john_lax)))
                 (target (snd (deleteProperty ''age'' john_lax))) ''age''
   \<and> get_prop (heap (snd (deleteProperty ''age'' john_lax)))
               (target (snd (deleteProperty ''age'' john_lax))) ''name'' = Str ''John''"
proof -
  have s: "\<not> strict john_lax" by (simp add: john_lax_def)
  have a: "target john_lax < length (heap john_lax)"
    by (simp add: john_lax_def john_def john_heap_def)
  have g: "get_prop (heap john_lax) (target john_lax) ''name'' = Str ''John''"
    by (simp add: john_lax_def john_def john_heap_def get_prop_def lookup_def)
  have d: "dirty john_lax = []" by (simp add: john_lax_def john_def)
  from delete_semantics [of john_lax "''age''"] s a g d show ?thesis
    by simp
qed

lemma getCompiledValidator_fields:
  "heap (snd (getCompiledValidator w)) = heap w"
  "target (snd (getCompiledValidator w)) = target w"
  "dirty (snd (getCompiledValidator w)) = dirty w"
  "lastErrors (snd (getCompiledValidator w)) = lastErrors w"
  "initial (snd (getCompiledValidator w)) = initial w"
  "strict (snd (getCompiledValidator w)) = strict w"
  "schema (snd (getCompiledValidator w)) = schema w"
  "customValidator (snd (getCompiledValidator w)) = customValidator w"
  "subs (snd (getCompiledValidator w)) = subs w"
  "published (snd (getCompiledValidator w)) = published w"
  "calls (snd (getCompiledValidator w)) = calls w"
  "ajv_compile (snd (getCompiledValidator w)) = ajv_compile w"
  by (simp_all add: getCompiledValidator_def split: option.splits)

lemma doValidate_world: "snd (doValidate w) = snd (getCompiledValidator w)"
  by (simp add: doValidate_def Let_def split: prod.splits)

lemma doValidate_valid: "fst (fst (doValidate w)) = (snd (fst (doValidate w)) = [])"
  by (simp add: doValidate_def Let_def split: prod.splits)

section \<open>Reads through the proxy\<close>

text \<open>
  Claim C10. Reading any property other than \<^verbatim>\<open>__isValid\<close> (the accessors
  \<^verbatim>\<open>__dirty\<close>, \<^verbatim>\<open>__isDirty\<close>, \<^verbatim>\<open>__source\<close>, \<^verbatim>\<open>__initial\<close>,
  \<^verbatim>\<open>__errors\<close>, a method, or a property of the model) leaves the world as it was.
  Reading \<^verbatim>\<open>__isValid\<close> leaves the model, the dirty set, the subscribers and both logs
  as they were, overwrites the last errors with the errors of a fresh validation pass, and
  returns whether that list is empty.
\<close>

theorem reads_have_no_effect:
  fixes w :: "'s world" and key :: string
  defines "w1 \<equiv> snd (get_trap key w)"
  shows "if key = ''__isValid''
         then heap w1 = heap w \<and> dirty w1 = dirty w
            \<and> published w1 = published w \<and> calls w1 = calls w \<and> subs w1 = subs w
            \<and> target w1 = target w \<and> initial w1 = initial w \<and> strict w1 = strict w
            \<and> lastErrors w1 = snd (fst (doValidate w))
            \<and> fst (get_trap key w) = GBool (lastErrors w1 = [])
         else w1 = w"
proof (cases "key = ''__isValid''")
  case True
  obtain valid errors w2 where d: "doValidate w = ((valid, errors), w2)"
    by (metis surj_pair)
  have w2: "w2 = snd (getCompiledValidator w)" using doValidate_world [of w] d by simp
  have v: "valid = (errors = [])" using doValidate_valid [of w] d by simp
  have "get_trap key w = (GBool valid, w2\<lparr>lastErrors := errors\<rparr>)"
    using True d by (simp add: get_trap_def)
  then show ?thesis
    using True d v by (simp add: w1_def w2 getCompiledValidator_fields)
next
  case False
  then show ?thesis by (simp add: w1_def get_trap_def)
qed

section \<open>Validation\<close>

text \<open>
  Claim C3, as the spec states it, asks \<^verbatim>\<open>__validate()\<close> to fail on a wrapper with
  neither a schema nor a custom validator. It does not: on the wrapper \<open>john\<close>, which has
  neither, it returns \<open>true\<close>.
\<close>

theorem validate_unconfigured_counterexample:
  "schema john = None \<and> customValidator john = None
   \<and> fst (validate_method john) = Inr True \<and> \<not> isl (fst (validate_method john))"
  by (simp add: john_def validate_method_def doValidate_def getCompiledValidator_def
      schema_stage_def custom_stage_def)

text \<open>
  Claim C3, amended. On a wrapper with neither a schema nor a custom validator (and so with no
  compiled validator), \<^verbatim>\<open>__validate()\<close> returns \<open>true\<close> without throwing and
  \<^verbatim>\<open>__isValid\<close> reads \<open>true\<close>; both leave an empty list of last errors and change
  nothing else.
\<close>

theorem validate_unconfigured:
  fixes w :: "'s world"
  assumes "schema w = None" and "customValidator w = None" and "compiledValidator w = None"
  shows "validate_method w = (Inr True, w\<lparr>lastErrors := []\<rparr>)
       \<and> get_trap ''__isValid'' w = (GBool True, w\<lparr>lastErrors := []\<rparr>)"
  using assms
  by (simp add: validate_method_def get_trap_def doValidate_def getCompiledValidator_def
      schema_stage_def custom_stage_def)

theorem validate_unconfigured_witness:
  "schema john = None \<and> customValidator john = None \<and> compiledValidator john = None
   \<and> validate_method john = (Inr True, john)
   \<and> get_trap ''__isValid'' john = (GBool True, john)"
proof -
  have h: "schema john = None" "customValidator john = None" "compiledValidator john = None"
    by (simp_all add: john_def)
  have e: "john\<lparr>lastErrors := []\<rparr> = john" by (simp add: john_def)
  from validate_unconfigured [OF h] h e show ?thesis by simp
qed

text \<open>
  Claim C2. On a wrapper with a schema and a custom validator, when the compiled validator
  rejects the model and reports the errors \<open>es\<close> (at least one, as Ajv does when it
  rejects) and the custom validator returns a string, one validation pass yields the
  converted schema errors followed by exactly one entry with path \<^verbatim>\<open>/\<close> and that string:
  \<open>length es + 1\<close> errors, so at least two. Reading \<^verbatim>\<open>__isValid\<close> gives \<open>false\<close> and
  \<^verbatim>\<open>__validate()\<close> throws with that list, and both store it as the last errors. For
  every wrapper a pass is valid exactly when its list of errors is empty.
\<close>

theorem both_stages_run:
  fixes w :: "'s world"
  assumes "schema w = Some s" and "customValidator w = Some cv"
    and "vf = (case compiledValidator w of None \<Rightarrow> ajv_compile w s | Some f \<Rightarrow> f)"
    and "vf (heap w) (target w) = (False, Some es)" and "es \<noteq> []"
    and "cv (heap w) (target w) = VMessage msg"
  defines "errors \<equiv> ajvErrorsToValidationErrors (Some es) @ [\<lparr>path = ''/'', message = msg\<rparr>]"
  shows "fst (doValidate w) = (False, errors)
       \<and> length errors = length es + 1 \<and> 2 \<le> length errors
       \<and> fst (get_trap ''__isValid'' w) = GBool False
       \<and> lastErrors (snd (get_trap ''__isValid'' w)) = errors
       \<and> fst (validate_method w) = Inl (ModelizeValidationError ''Validation failed'' errors)
       \<and> lastErrors (snd (validate_method w)) = errors
       \<and> (\<forall>w' :: 's world. fst (fst (doValidate w')) = (snd (fst (doValidate w')) = []))"
proof -
  have g: "fst (getCompiledValidator w) = Some vf"
    using assms(1,3) by (simp add: getCompiledValidator_def split: option.splits)
  obtain w1 where w1: "getCompiledValidator w = (Some vf, w1)"
    using g by (cases "getCompiledValidator w") simp
  have f: "heap w1 = heap w" "target w1 = target w" "customValidator w1 = customValidator w"
    using getCompiledValidator_fields [of w] w1 by simp_all
  have l: "length errors = length es + 1"
    by (simp add: errors_def ajvErrorsToValidationErrors_def)
  have d: "doValidate w = ((False, errors), w1)"
    using assms(2,4,6) w1 f
    by (simp add: doValidate_def schema_stage_def custom_stage_def errors_def)
  have "2 \<le> length errors" using l assms(5) by (cases es) simp_all
  then show ?thesis
    using d l by (simp add: get_trap_def validate_method_def doValidate_valid)
qed

theorem both_stages_run_witness:
  "schema account = Some () \<and> customValidator account = Some status_validator
   \<and> age_schema () (heap account) (target account)
       = (False, Some [\<lparr>instancePath = ''/age'', e_message = Some ''must be >= 0''\<rparr>])
   \<and> status_validator (heap account) (target account)
       = VMessage ''Status must be active or inactive''
   \<and> fst (doValidate account)
       = (False, [\<lparr>path = ''/age'', message = ''must be >= 0''\<rparr>,
                  \<lparr>path = ''/'', message = ''Status must be active or inactive''\<rparr>])
   \<and> fst (validate_method account)
       = Inl (ModelizeValidationError ''Validation failed''
               [\<lparr>path = ''/age'', message = ''must be >= 0''\<rparr>,
                \<lparr>path = ''/'', message = ''Status must be active or inactive''\<rparr>])"
proof -
  have h1: "schema account = Some ()" and h2: "customValidator account = Some status_validator"
    by (simp_all add: account_def)
  have h3: "age_schema () = (case compiledValidator account of None \<Rightarrow> ajv_compile account ()
                              | Some f \<Rightarrow> f)"
    by (simp add: account_def)
  have h4: "age_schema () (heap account) (target account)
       = (False, Some [\<lparr>instancePath = ''/age'', e_message = Some ''must be >= 0''\<rparr>])"
    by (simp add: account_def age_schema_def get_prop_def lookup_def)
  have h5: "[\<lparr>instancePath = ''/age'', e_message = Some ''must be >= 0''\<rparr>] \<noteq> []" by simp
  have h6: "status_validator (heap account) (target account)
       = VMessage ''Status must be active or inactive''"
    by (simp add: account_def status_validator_def get_prop_def lookup_def)
  from both_stages_run [OF h1 h2 h3 h4 h5 h6] h1 h2 h4 h6 show ?thesis
    by (simp add: ajvErrorsToValidationErrors_def)
qed

section \<open>Bulk update\<close>














lemma subsFor_subsFor_init: "subsFor e (subsFor_init e' w) = subsFor e w"
proof (cases "e' \<in> set (map fst (subs w))")
  case True
  then show ?thesis by (simp add: subsFor_init_def)
next
  case False
  then have "map_of (subs w) e' = None" by (simp add: map_of_eq_None_iff)
  then show ?thesis using False
    by (auto simp: subsFor_init_def subsFor_def map_add_def split: option.splits)
qed







section \<open>Subscribing\<close>

lemma map_of_update_entry:
  "map_of (map (\<lambda>(e, cbs). if e = ev then (e, f cbs) else (e, cbs)) xs) e' =
     (if e' = ev then map_option f (map_of xs ev) else map_of xs e')"
  by (induction xs) auto

lemma subsFor_init_present: "map_of (subs (subsFor_init ev w)) ev = Some (subsFor ev w)"
proof (cases "ev \<in> set (map fst (subs w))")
  case True
  then obtain cbs where "map_of (subs w) ev = Some cbs"
    by (metis map_of_eq_None_iff not_Some_eq set_map)
  then show ?thesis using True by (simp add: subsFor_init_def subsFor_def)
next
  case False
  then have "map_of (subs w) ev = None" by (simp add: map_of_eq_None_iff)
  then show ?thesis using False by (simp add: subsFor_init_def subsFor_def map_add_def)
qed

lemma pubsub_subscribe_subsFor:
  "subsFor e (snd (pubsub_subscribe ev cb w)) =
     (if e = ev then set_add cb (subsFor ev w) else subsFor e w)"
proof (cases "e = ev")
  case True
  then show ?thesis
    by (simp add: pubsub_subscribe_def Let_def subsFor_def [of _ "_\<lparr>subs := _\<rparr>"]
        map_of_update_entry subsFor_init_present)
next
  case False
  have "subsFor e (subsFor_init ev w) = subsFor e w" by (rule subsFor_subsFor_init)
  then show ?thesis using False
    by (simp add: pubsub_subscribe_def Let_def subsFor_def map_of_update_entry)
qed

lemma call_unsubscriber_subsFor:
  "subsFor e (snd (call_unsubscriber (Unsubscribe ev cb) w)) =
     (if e = ev then set_delete cb (subsFor ev w) else subsFor e w)"
proof (cases "e = ev")
  case True
  then show ?thesis
    by (simp add: Let_def subsFor_def [of _ "_\<lparr>subs := _\<rparr>"]
        map_of_update_entry subsFor_init_present)
next
  case False
  have "subsFor e (subsFor_init ev w) = subsFor e w" by (rule subsFor_subsFor_init)
  then show ?thesis using False
    by (simp add: Let_def subsFor_def map_of_update_entry)
qed

lemma count_calls:
  "length (filter ((\<lambda>c. c_callback c = cb) \<circ> (\<lambda>x. \<lparr>c_callback = x, c_arg = d, c_seen = s\<rparr>)) xs)
     = count_list xs cb"
  by (induction xs) auto

lemma times_called_notify:
  "times_called cb (notify w) = times_called cb w + count_list (subsFor CHANGE_EVENT w) cb"
  by (simp add: times_called_def notify_calls subsFor_subsFor_init count_calls)

lemma count_list_distinct: "distinct xs \<Longrightarrow> count_list xs x = (if x \<in> set xs then 1 else 0)"
  by (induction xs) auto

lemma set_delete_set: "set (set_delete x xs) = set xs - {x}"
  by (auto simp: set_delete_def)

lemma subscribe_eq:
  "subscribe cb w =
     pubsub_subscribe CHANGE_EVENT cb
       (w\<lparr>calls := calls w @ [\<lparr>c_callback = cb, c_arg = proxy w, c_seen = current_seen w\<rparr>]\<rparr>)"
  by (simp add: subscribe_def invoke_def)

lemma pubsub_subscribe_fields:
  "fst (pubsub_subscribe ev cb w) = Unsubscribe ev cb"
  "heap (snd (pubsub_subscribe ev cb w)) = heap w"
  "target (snd (pubsub_subscribe ev cb w)) = target w"
  "dirty (snd (pubsub_subscribe ev cb w)) = dirty w"
  "strict (snd (pubsub_subscribe ev cb w)) = strict w"
  "lastErrors (snd (pubsub_subscribe ev cb w)) = lastErrors w"
  "published (snd (pubsub_subscribe ev cb w)) = published w"
  "calls (snd (pubsub_subscribe ev cb w)) = calls w"
  by (simp_all add: pubsub_subscribe_def Let_def)

lemma call_unsubscriber_fields:
  "heap (snd (call_unsubscriber u w)) = heap w"
  "target (snd (call_unsubscriber u w)) = target w"
  "dirty (snd (call_unsubscriber u w)) = dirty w"
  "strict (snd (call_unsubscriber u w)) = strict w"
  "lastErrors (snd (call_unsubscriber u w)) = lastErrors w"
  "published (snd (call_unsubscriber u w)) = published w"
  "calls (snd (call_unsubscriber u w)) = calls w"
  by (cases u; simp add: Let_def)+

declare call_unsubscriber.simps [simp del]

text \<open>A write that changes the value of a present key ends in one \<open>notify\<close>.\<close>

lemma set_trap_changing:
  "key \<notin> set RESERVED_NAMES \<Longrightarrow> has_key (heap w) (target w) key \<Longrightarrow>
   \<not> strict_eq (get_prop (heap w) (target w) key) v \<Longrightarrow>
   snd (set_trap key v w) =
     notify (w\<lparr>heap := set_prop (heap w) (target w) key v, dirty := set_add key (dirty w)\<rparr>)"
  using has_key_allocated [of "heap w" "target w" key] own_key_in_target [of w key]
  by (simp add: set_trap_def target_get_own reflect_set_def Let_def)

text \<open>
  Claim C8. \<^verbatim>\<open>subscribe(callback)\<close> calls the callback exactly once, with the proxy,
  before it registers it (the call still sees the subscribers as they were), publishes
  nothing and changes neither the model nor the dirty set; then the callback is in the set
  of the change event, and the function returned is the one that deletes it from that set.
  From then on a publication calls it exactly once more, be it \<open>notify\<close> itself or a write
  that changes a value. After the returned function has been called the callback is no
  longer in the set, and neither \<open>notify\<close> nor such a write calls it. In any world whose
  subscriber set has no duplicates, a publication calls a callback once if it is subscribed
  and not at all otherwise.
\<close>

theorem subscribe_contract:
  fixes w :: "'s world" and cb :: callback and key :: string and v :: jsval
  assumes "distinct (subsFor CHANGE_EVENT w)"
    and "key \<notin> set RESERVED_NAMES" and "has_key (heap w) (target w) key"
    and "\<not> strict_eq (get_prop (heap w) (target w) key) v"
  defines "u \<equiv> fst (subscribe cb w)" and "w1 \<equiv> snd (subscribe cb w)"
  defines "w2 \<equiv> snd (call_unsubscriber u w1)"
  shows "calls w1 = calls w @ [\<lparr>c_callback = cb, c_arg = proxy w, c_seen = current_seen w\<rparr>]
       \<and> times_called cb w1 = times_called cb w + 1
       \<and> published w1 = published w \<and> heap w1 = heap w \<and> dirty w1 = dirty w
       \<and> subsFor CHANGE_EVENT w1 = set_add cb (subsFor CHANGE_EVENT w)
       \<and> u = Unsubscribe CHANGE_EVENT cb
       \<and> times_called cb (notify w1) = times_called cb w1 + 1
       \<and> times_called cb (snd (set_trap key v w1)) = times_called cb w1 + 1
       \<and> calls w2 = calls w1 \<and> times_called cb w2 = times_called cb w1
       \<and> subsFor CHANGE_EVENT w2 = set_delete cb (subsFor CHANGE_EVENT w1)
       \<and> times_called cb (notify w2) = times_called cb w2
       \<and> times_called cb (snd (set_trap key v w2)) = times_called cb w2
       \<and> (\<forall>w' :: 's world. distinct (subsFor CHANGE_EVENT w') \<longrightarrow>
             times_called cb (notify w') =
               times_called cb w' + (if cb \<in> set (subsFor CHANGE_EVENT w') then 1 else 0))"
proof -
  define w0 where
    "w0 = w\<lparr>calls := calls w @ [\<lparr>c_callback = cb, c_arg = proxy w, c_seen = current_seen w\<rparr>]\<rparr>"
  have u: "u = Unsubscribe CHANGE_EVENT cb"
    by (simp add: u_def subscribe_eq pubsub_subscribe_fields)
  have w1: "w1 = snd (pubsub_subscribe CHANGE_EVENT cb w0)"
    by (simp add: w1_def subscribe_eq w0_def)
  have s0: "subsFor CHANGE_EVENT w0 = subsFor CHANGE_EVENT w" by (simp add: w0_def subsFor_def)
  have c1: "calls w1 = calls w @ [\<lparr>c_callback = cb, c_arg = proxy w, c_seen = current_seen w\<rparr>]"
    by (simp add: w1 pubsub_subscribe_fields) (simp add: w0_def)
  have f1: "published w1 = published w" "heap w1 = heap w" "dirty w1 = dirty w"
    "target w1 = target w"
    by (simp_all add: w1 pubsub_subscribe_fields) (simp_all add: w0_def)
  have s1: "subsFor CHANGE_EVENT w1 = set_add cb (subsFor CHANGE_EVENT w)"
    by (simp add: w1 pubsub_subscribe_subsFor s0)
  have d1: "distinct (subsFor CHANGE_EVENT w1)" and m1: "cb \<in> set (subsFor CHANGE_EVENT w1)"
    using assms(1) by (simp_all add: s1 set_add_distinct set_add_set)
  have t1: "times_called cb w1 = times_called cb w + 1"
    by (simp add: times_called_def c1)
  have gen: "\<And>w' :: 's world. distinct (subsFor CHANGE_EVENT w') \<Longrightarrow>
             times_called cb (notify w') =
               times_called cb w' + (if cb \<in> set (subsFor CHANGE_EVENT w') then 1 else 0)"
    by (simp add: times_called_notify count_list_distinct)
  have n1: "times_called cb (notify w1) = times_called cb w1 + 1"
    using gen [OF d1] m1 by simp
  have f2: "calls w2 = calls w1" "heap w2 = heap w" "target w2 = target w"
    by (simp_all add: w2_def call_unsubscriber_fields f1)
  have t2: "times_called cb w2 = times_called cb w1" by (simp add: times_called_def f2)
  have s2: "subsFor CHANGE_EVENT w2 = set_delete cb (subsFor CHANGE_EVENT w1)"
    by (simp add: w2_def u call_unsubscriber_subsFor)
  have d2: "distinct (subsFor CHANGE_EVENT w2)" and m2: "cb \<notin> set (subsFor CHANGE_EVENT w2)"
    using d1 by (simp_all add: s2 set_delete_set) (simp add: set_delete_def)
  have n2: "times_called cb (notify w2) = times_called cb w2"
    using gen [OF d2] m2 by simp
  have k1: "has_key (heap w1) (target w1) key"
    "\<not> strict_eq (get_prop (heap w1) (target w1) key) v"
    using assms(3,4) by (simp_all add: f1)
  have k2: "has_key (heap w2) (target w2) key"
    "\<not> strict_eq (get_prop (heap w2) (target w2) key) v"
    using assms(3,4) by (simp_all add: f2)
  have x1: "times_called cb (snd (set_trap key v w1)) = times_called cb w1 + 1"
    using m1 d1
    by (simp add: set_trap_changing [OF assms(2) k1] times_called_notify count_list_distinct
        subsFor_def) (simp add: times_called_def)
  have x2: "times_called cb (snd (set_trap key v w2)) = times_called cb w2"
    using m2 d2
    by (simp add: set_trap_changing [OF assms(2) k2] times_called_notify count_list_distinct
        subsFor_def) (simp add: times_called_def)
  from c1 t1 f1 s1 u n1 x1 f2 t2 s2 n2 x2 gen show ?thesis by simp
qed

theorem subscribe_contract_witness:
  "distinct (subsFor CHANGE_EVENT john) \<and> ''name'' \<notin> set RESERVED_NAMES
   \<and> has_key (heap john) (target john) ''name''
   \<and> \<not> strict_eq (get_prop (heap john) (target john) ''name'') (Str ''Jane'')
   \<and> times_called 7 john = 0
   \<and> times_called 7 (snd (subscribe 7 john)) = 1
   \<and> times_called 7 (snd (set_trap ''name'' (Str ''Jane'') (snd (subscribe 7 john)))) = 2
   \<and> times_called 7 (snd (set_trap ''name'' (Str ''Jane'')
        (snd (call_unsubscriber (fst (subscribe 7 john)) (snd (subscribe 7 john)))))) = 1"
proof -
  have h1: "distinct (subsFor CHANGE_EVENT john)" by (simp add: subsFor_def john_def)
  have h2: "''name'' \<notin> set RESERVED_NAMES" by (simp add: RESERVED_NAMES_def)
  have h3: "has_key (heap john) (target john) ''name''"
    by (simp add: has_key_def own_keys_def lookup_def john_def john_heap_def)
  have h4: "\<not> strict_eq (get_prop (heap john) (target john) ''name'') (Str ''Jane'')"
    by (simp add: strict_eq_def get_prop_def lookup_def john_def john_heap_def)
  have z: "times_called 7 john = 0" by (simp add: times_called_def john_def)
  from subscribe_contract [OF h1 h2 h3 h4, of 7] h1 h2 h3 h4 z show ?thesis
    by (elim conjE) simp
qed

section \<open>The initial snapshot and the restore\<close>

lemma cloned_kind_idem [simp]: "cloned_kind (cloned_kind kd) = cloned_kind kd"
  by (simp add: cloned_kind_def)

text \<open>
  The keys \<^verbatim>\<open>"0"\<close>, \<^verbatim>\<open>"10"\<close> and \<^verbatim>\<open>"4294967294"\<close> are indices; \<^verbatim>\<open>"01"\<close>,
  \<^verbatim>\<open>"tag"\<close>, \<^verbatim>\<open>"1x"\<close>, the empty key and \<^verbatim>\<open>"4294967295"\<close> are not.
\<close>

lemma is_index_examples:
  "is_index ''0''" "is_index ''10''" "is_index ''4294967294''"
  "\<not> is_index ''01''" "\<not> is_index ''tag''" "\<not> is_index ''1x''" "\<not> is_index ''''"
  "\<not> is_index ''4294967295''"
  by (simp_all add: digit_def)

text \<open>
  The clone of \<^verbatim>\<open>[1, { a: NaN }]\<close> to which a property \<^verbatim>\<open>tag\<close> was added: a new
  array of the two elements, the second a new object, and no \<^verbatim>\<open>tag\<close>.
\<close>

lemma deepClone_array_example:
  "deepClone 2 [(Array, [(''0'', Num 1), (''1'', Ref 1), (''tag'', Str ''x'')]),
                (PlainObject, [(''a'', NaN)])] (Ref 0)
     = Some (Ref 3, [(Array, [(''0'', Num 1), (''1'', Ref 1), (''tag'', Str ''x'')]),
                     (PlainObject, [(''a'', NaN)]),
                     (PlainObject, [(''a'', NaN)]),
                     (Array, [(''0'', Num 1), (''1'', Ref 2)])])"
  by (simp add: lookup_def alloc_def digit_def numeral_2_eq_2)

lemma cloned_props_map:
  "cloned_props kd (map (map_prod id f) xs) = map (map_prod id f) (cloned_props kd xs)"
  by (simp add: cloned_props_def filter_map comp_def)

lemma cloned_props_idem [simp]:
  "cloned_props kd (cloned_props kd xs) = cloned_props kd xs"
  "cloned_props (cloned_kind kd) (cloned_props kd xs) = cloned_props kd xs"
  by (simp_all add: cloned_props_def cloned_kind_def)

lemma cloned_props_subset: "set (cloned_props kd xs) \<subseteq> set xs"
  by (simp add: cloned_props_def)

lemma plain_idem [simp]: "plain (plain t) = plain t"
proof (induction t)
  case (Leaf v)
  show ?case by simp
next
  case (Node kd ts)
  have "map (map_prod id plain) (map (map_prod id plain) (cloned_props kd ts))
          = map (map_prod id plain) (cloned_props kd ts)"
  proof (rule map_idI)
    fix x assume "x \<in> set (map (map_prod id plain) (cloned_props kd ts))"
    then obtain k t where x: "x = (k, plain t)" and m: "(k, t) \<in> set ts"
      using cloned_props_subset [of kd ts] by auto
    have "t \<in> Basic_BNFs.snds (k, t)" by simp
    then show "map_prod id plain x = x" using Node.IH [OF m] x by simp
  qed
  moreover have "plain (plain (Node kd ts))
      = Node (cloned_kind kd)
          (map (map_prod id plain) (map (map_prod id plain) (cloned_props kd ts)))"
    by (simp only: plain.simps cloned_props_map cloned_props_idem cloned_kind_idem)
  ultimately show ?case by (simp only: plain.simps cloned_props_map)
qed

lemma deep_props_keys: "deep_props f h ps = Some ts \<Longrightarrow> map fst ts = map fst ps"
proof (induction ps arbitrary: ts)
  case Nil
  then show ?case by simp
next
  case (Cons p ps)
  obtain k v where p: "p = (k, v)" by (cases p)
  from Cons.prems show ?case using Cons.IH by (auto simp: p split: option.splits)
qed

lemma deep_props_filter:
  "deep_props f h ps = Some ts \<Longrightarrow>
   deep_props f h (filter (\<lambda>p. P (fst p)) ps) = Some (filter (\<lambda>p. P (fst p)) ts)"
proof (induction ps arbitrary: ts)
  case Nil
  then show ?case by simp
next
  case (Cons p ps)
  obtain k v where p: "p = (k, v)" by (cases p)
  from Cons.prems show ?case using Cons.IH by (auto simp: p split: option.splits)
qed

lemma deep_props_cloned:
  "deep_props f h ps = Some ts \<Longrightarrow> deep_props f h (cloned_props kd ps) = Some (cloned_props kd ts)"
  by (simp add: cloned_props_def deep_props_filter)

lemma map_of_filter_key:
  "P k \<Longrightarrow> map_of (filter (\<lambda>p. P (fst p)) ps) k = map_of ps k"
  by (induction ps) auto

lemma map_of_cloned_props:
  "k \<in> set (map fst (cloned_props kd ps)) \<Longrightarrow> map_of (cloned_props kd ps) k = map_of ps k"
  by (auto simp: cloned_props_def map_of_filter_key split: if_splits)

lemma map_fixed: "map f xs = xs \<Longrightarrow> x \<in> set xs \<Longrightarrow> f x = x"
  by (induction xs) auto

lemma same_cells_nth:
  assumes "same_cells lo hi h g" and "lo \<le> a" and "a < hi"
  shows "g ! a = h ! a"
proof -
  have e: "drop lo (take hi g) = drop lo (take hi h)" and l: "hi \<le> length h" "hi \<le> length g"
    using assms(1) by (simp_all add: same_cells_def)
  have "drop lo (take hi g) ! (a - lo) = g ! a"
    using assms(2,3) l by simp
  moreover have "drop lo (take hi h) ! (a - lo) = h ! a"
    using assms(2,3) l by simp
  ultimately show ?thesis using e by simp
qed

lemma same_cellsI:
  assumes "hi \<le> length h" and "hi \<le> length g"
    and "\<And>a. lo \<le> a \<Longrightarrow> a < hi \<Longrightarrow> g ! a = h ! a"
  shows "same_cells lo hi h g"
proof -
  have "drop lo (take hi g) = drop lo (take hi h)"
  proof (rule nth_equalityI)
    show "length (drop lo (take hi g)) = length (drop lo (take hi h))"
      using assms(1,2) by simp
  next
    fix j assume "j < length (drop lo (take hi g))"
    then have j: "lo + j < hi" using assms(2) by simp
    then show "drop lo (take hi g) ! j = drop lo (take hi h) ! j"
      using assms by simp
  qed
  then show ?thesis using assms(1,2) by (simp add: same_cells_def)
qed

lemma same_cells_lookup:
  "same_cells lo hi h g \<Longrightarrow> lo \<le> a \<Longrightarrow> a < hi \<Longrightarrow> lookup g a = lookup h a"
  using same_cells_nth [of lo hi h g a] by (simp add: lookup_def same_cells_def)

lemma deep_props_mono:
  assumes "\<And>v t. f h v = Some t \<Longrightarrow> f' g v = Some t"
  shows "deep_props f h ps = Some ts \<Longrightarrow> deep_props f' g ps = Some ts"
proof (induction ps arbitrary: ts)
  case Nil
  then show ?case by simp
next
  case (Cons p ps)
  obtain k v where p: "p = (k, v)" by (cases p)
  from Cons.prems obtain t ts' where
    t: "f h v = Some t" and r: "deep_props f h ps = Some ts'" and ts: "ts = (k, t) # ts'"
    by (auto simp: p split: option.splits)
  show ?case using assms [OF t] Cons.IH [OF r] by (simp add: p ts)
qed

text \<open>A value unfolds to the same tree in every heap that extends the one it was read in.\<close>

lemma deep_value_extend:
  "deep_value n h v = Some t \<Longrightarrow> same_cells 0 (length h) h g \<Longrightarrow> deep_value n g v = Some t"
proof (induction n arbitrary: v t)
  case 0
  then show ?case by (cases v) simp_all
next
  case (Suc n)
  show ?case
  proof (cases v)
    case (Ref a)
    from Suc.prems(1) Ref obtain kd ps ts where
      c: "lookup h a = Some (kd, ps)" and d: "deep_props (deep_value n) h ps = Some ts"
      and t: "t = Node kd ts"
      by (auto split: option.splits)
    have a: "a < length h" using c by (simp add: lookup_def split: if_splits)
    have c': "lookup g a = Some (kd, ps)"
      using same_cells_lookup [OF Suc.prems(2), of a] a c by simp
    have "deep_props (deep_value n) g ps = Some ts"
      using d by (rule deep_props_mono [rotated]) (rule Suc.IH [OF _ Suc.prems(2)])
    then show ?thesis by (simp add: Ref c' t)
  qed (use Suc.prems in simp_all)
qed

text \<open>A deeper bound on the recursion gives the same tree.\<close>

lemma deep_value_Suc: "deep_value n h v = Some t \<Longrightarrow> deep_value (Suc n) h v = Some t"
proof (induction n arbitrary: v t)
  case 0
  then show ?case by (cases v) simp_all
next
  case (Suc n)
  show ?case
  proof (cases v)
    case (Ref a)
    from Suc.prems Ref obtain kd ps ts where
      c: "lookup h a = Some (kd, ps)" and d: "deep_props (deep_value n) h ps = Some ts"
      and t: "t = Node kd ts"
      by (auto split: option.splits)
    have "deep_props (deep_value (Suc n)) h ps = Some ts"
      using d by (rule deep_props_mono [rotated]) (rule Suc.IH)
    then show ?thesis using c by (simp add: Ref t)
  qed (use Suc.prems in simp_all)
qed

lemma same_cells_shrink:
  "same_cells lo hi h g \<Longrightarrow> lo \<le> lo' \<Longrightarrow> hi' \<le> hi \<Longrightarrow> same_cells lo' hi' h g"
proof -
  assume s: "same_cells lo hi h g" and b: "lo \<le> lo'" "hi' \<le> hi"
  show "same_cells lo' hi' h g"
  proof (rule same_cellsI)
    show "hi' \<le> length h" "hi' \<le> length g" using s b by (simp_all add: same_cells_def)
  next
    fix a assume "lo' \<le> a" "a < hi'"
    then show "g ! a = h ! a" using same_cells_nth [OF s, of a] b by simp
  qed
qed

lemma same_cells_prefix:
  "same_cells lo hi (h @ new) g \<Longrightarrow> hi \<le> length h \<Longrightarrow> same_cells lo hi h g"
proof -
  assume s: "same_cells lo hi (h @ new) g" and b: "hi \<le> length h"
  show "same_cells lo hi h g"
  proof (rule same_cellsI)
    show "hi \<le> length h" by (rule b)
    show "hi \<le> length g" using s by (simp add: same_cells_def)
  next
    fix a assume a: "lo \<le> a" "a < hi"
    then show "g ! a = h ! a" using same_cells_nth [OF s, of a] b by (simp add: nth_append)
  qed
qed

text \<open>
  The clone of a list of properties, given that cloning one value at that depth is right:
  the heap only grows, the keys are the same, and the clones unfold to the same trees in
  every heap that has the new objects.
\<close>

lemma clone_props_correct:
  assumes el: "\<And>h v t. deep_value m h v = Some t \<Longrightarrow>
      \<exists>v' new. deepClone m h v = Some (v', h @ new)
        \<and> (\<forall>g. same_cells (length h) (length (h @ new)) (h @ new) g \<longrightarrow>
                deep_value m g v' = Some (plain t))"
  shows "deep_props (deep_value m) h ps = Some ts \<Longrightarrow>
      \<exists>ps' new. clone_props (deepClone m) h ps = Some (ps', h @ new)
        \<and> map fst ps' = map fst ps
        \<and> (\<forall>g. same_cells (length h) (length (h @ new)) (h @ new) g \<longrightarrow>
                deep_props (deep_value m) g ps' = Some (map (map_prod id plain) ts))"
proof (induction ps arbitrary: h ts)
  case Nil
  then show ?case by simp
next
  case (Cons p ps)
  obtain k v where p: "p = (k, v)" by (cases p)
  from Cons.prems obtain t ts' where
    t: "deep_value m h v = Some t" and r: "deep_props (deep_value m) h ps = Some ts'"
    and ts: "ts = (k, t) # ts'"
    by (auto simp: p split: option.splits)
  from el [OF t] obtain v' new1 where
    c1: "deepClone m h v = Some (v', h @ new1)"
    and i1: "\<And>g. same_cells (length h) (length (h @ new1)) (h @ new1) g \<Longrightarrow>
               deep_value m g v' = Some (plain t)"
    by blast
  have ext: "same_cells 0 (length h) h (h @ new1)"
    by (rule same_cellsI) (simp_all add: nth_append)
  have r1: "deep_props (deep_value m) (h @ new1) ps = Some ts'"
    using r by (rule deep_props_mono [rotated]) (rule deep_value_extend [OF _ ext])
  from Cons.IH [OF r1] obtain ps' new2 where
    c2: "clone_props (deepClone m) (h @ new1) ps = Some (ps', (h @ new1) @ new2)"
    and k2: "map fst ps' = map fst ps"
    and i2: "\<And>g. same_cells (length (h @ new1)) (length ((h @ new1) @ new2)) ((h @ new1) @ new2) g
               \<Longrightarrow> deep_props (deep_value m) g ps' = Some (map (map_prod id plain) ts')"
    by blast
  have c: "clone_props (deepClone m) h (p # ps) = Some ((k, v') # ps', h @ (new1 @ new2))"
    by (simp add: p c1 c2)
  have i: "deep_props (deep_value m) g ((k, v') # ps') = Some (map (map_prod id plain) ts)"
    if s: "same_cells (length h) (length (h @ (new1 @ new2))) (h @ (new1 @ new2)) g" for g
  proof -
    have s': "same_cells (length h) (length (h @ new1 @ new2)) ((h @ new1) @ new2) g"
      using s by simp
    have "same_cells (length h) (length (h @ new1)) ((h @ new1) @ new2) g"
      using s' by (rule same_cells_shrink) simp_all
    then have "same_cells (length h) (length (h @ new1)) (h @ new1) g"
      by (rule same_cells_prefix) simp
    then have a: "deep_value m g v' = Some (plain t)" by (rule i1)
    have "same_cells (length (h @ new1)) (length ((h @ new1) @ new2)) ((h @ new1) @ new2) g"
      using s' by (rule same_cells_shrink) simp_all
    then have b: "deep_props (deep_value m) g ps' = Some (map (map_prod id plain) ts')"
      by (rule i2)
    show ?thesis using a b by (simp add: ts)
  qed
  have kk: "map fst ((k, v') # ps') = map fst (p # ps)" using k2 by (simp add: p)
  from c kk i show ?case by blast
qed

text \<open>
  \<open>deepClone\<close> on a value that unfolds to a tree within the depth bound: it returns, the
  heap has only grown, and the clone unfolds to the same tree in every heap that has the new
  objects, whatever that heap holds at the old addresses.
\<close>

lemma deepClone_correct:
  "deep_value n h v = Some t \<Longrightarrow>
     \<exists>v' new. deepClone n h v = Some (v', h @ new)
       \<and> (\<forall>g. same_cells (length h) (length (h @ new)) (h @ new) g \<longrightarrow>
               deep_value n g v' = Some (plain t))"
proof (induction n arbitrary: h v t)
  case 0
  then show ?case by (cases v) (auto intro: exI [of _ "[]"])
next
  case (Suc n)
  show ?case
  proof (cases v)
    case (Ref a)
    from Suc.prems Ref obtain kd ps ts where
      c: "lookup h a = Some (kd, ps)" and d: "deep_props (deep_value n) h ps = Some ts"
      and t: "t = Node kd ts"
      by (auto split: option.splits)
    have d': "deep_props (deep_value n) h (cloned_props kd ps) = Some (cloned_props kd ts)"
      using d by (rule deep_props_cloned)
    from clone_props_correct [of n, OF Suc.IH d'] obtain ps' new where
      cp: "clone_props (deepClone n) h (cloned_props kd ps) = Some (ps', h @ new)"
      and i: "\<And>g. same_cells (length h) (length (h @ new)) (h @ new) g \<Longrightarrow>
                deep_props (deep_value n) g ps'
                  = Some (map (map_prod id plain) (cloned_props kd ts))"
      by blast
    define cell where "cell = (cloned_kind kd, ps')"
    have dc: "deepClone (Suc n) h v = Some (Ref (length (h @ new)), h @ (new @ [cell]))"
      by (simp add: Ref c cp alloc_def cell_def)
    have iso: "deep_value (Suc n) g (Ref (length (h @ new))) = Some (plain t)"
      if s: "same_cells (length h) (length (h @ (new @ [cell]))) (h @ (new @ [cell])) g" for g
    proof -
      have s': "same_cells (length h) (Suc (length (h @ new))) ((h @ new) @ [cell]) g"
        using s by simp
      have "g ! length (h @ new) = ((h @ new) @ [cell]) ! length (h @ new)"
        using s' by (rule same_cells_nth) simp_all
      then have cell: "g ! length (h @ new) = (cloned_kind kd, ps')"
        by (simp only: nth_append_length cell_def)
      have len: "length (h @ new) < length g" using s' by (simp add: same_cells_def)
      have "same_cells (length h) (length (h @ new)) ((h @ new) @ [cell]) g"
        using s' by (rule same_cells_shrink) simp_all
      then have "same_cells (length h) (length (h @ new)) (h @ new) g"
        by (rule same_cells_prefix) simp
      then have "deep_props (deep_value n) g ps'
                   = Some (map (map_prod id plain) (cloned_props kd ts))" by (rule i)
      then show ?thesis using cell len by (simp add: lookup_def t cloned_props_map)
    qed
    show ?thesis using dc iso
      by (intro exI [of _ "Ref (length (h @ new))"] exI [of _ "new @ [cell]"]) simp
  qed (use Suc.prems in \<open>auto intro: exI [of _ "[]"]\<close>)
qed

text \<open>The heap only grows, and the clone of a reference is a new address.\<close>

lemma clone_props_grows:
  assumes "\<And>h v v' h'. f h v = Some (v', h') \<Longrightarrow> length h \<le> length h'"
  shows "clone_props f h ps = Some (ps', h1) \<Longrightarrow> length h \<le> length h1"
proof (induction ps arbitrary: h ps')
  case Nil
  then show ?case by simp
next
  case (Cons p ps)
  obtain k x where p: "p = (k, x)" by (cases p)
  from Cons.prems obtain x' ha ps'' where
    a: "f h x = Some (x', ha)" and b: "clone_props f ha ps = Some (ps'', h1)"
    by (auto simp: p split: option.splits)
  show ?case using assms [OF a] Cons.IH [OF b] by simp
qed

lemma deepClone_Ref:
  "deepClone (Suc m) h (Ref a) = Some (v', h') \<Longrightarrow>
     \<exists>kd ps ps' h1. lookup h a = Some (kd, ps)
       \<and> clone_props (deepClone m) h (cloned_props kd ps) = Some (ps', h1)
       \<and> v' = Ref (length h1) \<and> h' = h1 @ [(cloned_kind kd, ps')]"
  by (auto simp: alloc_def split: option.splits)

lemma deepClone_grows: "deepClone n h v = Some (v', h') \<Longrightarrow> length h \<le> length h'"
proof (induction n arbitrary: h v v' h')
  case 0
  then show ?case by (cases v) simp_all
next
  case (Suc m)
  show ?case
  proof (cases v)
    case (Ref a)
    from deepClone_Ref [OF Suc.prems [unfolded Ref]] obtain kd ps ps' h1 where
      cp: "clone_props (deepClone m) h (cloned_props kd ps) = Some (ps', h1)"
      and h': "h' = h1 @ [(cloned_kind kd, ps')]"
      by blast
    have "length h \<le> length h1" using cp by (rule clone_props_grows [rotated]) (rule Suc.IH)
    then show ?thesis by (simp add: h')
  qed (use Suc.prems in simp_all)
qed

lemma deepClone_fresh:
  "deepClone n h (Ref a) = Some (v', h') \<Longrightarrow> \<exists>c. v' = Ref c \<and> length h \<le> c \<and> c < length h'"
proof (cases n)
  case 0
  assume "deepClone n h (Ref a) = Some (v', h')"
  then show ?thesis using 0 by simp
next
  case (Suc m)
  assume "deepClone n h (Ref a) = Some (v', h')"
  from deepClone_Ref [OF this [unfolded Suc]] obtain kd ps ps' h1 where
    cp: "clone_props (deepClone m) h (cloned_props kd ps) = Some (ps', h1)"
    and r: "v' = Ref (length h1)" "h' = h1 @ [(cloned_kind kd, ps')]"
    by blast
  have "length h \<le> length h1"
    using cp by (rule clone_props_grows [rotated]) (rule deepClone_grows)
  then show ?thesis by (simp add: r)
qed

lemma deepClone_fresh_any:
  "deepClone n h v = Some (Ref c, h') \<Longrightarrow> length h \<le> c"
proof (cases v)
  case (Ref a)
  assume "deepClone n h v = Some (Ref c, h')"
  then show ?thesis using deepClone_fresh [of n h a "Ref c" h'] Ref by auto
qed (cases n; simp)+

lemma set_prop_nth_other: "a \<noteq> s \<Longrightarrow> set_prop h s k v ! a = h ! a"
  by (simp add: set_prop_def split: option.splits prod.splits)

lemma get_prop_append: "a < length h \<Longrightarrow> get_prop (h @ new) a k = get_prop h a k"
  by (simp add: get_prop_def lookup_def nth_append)

lemma deep_props_lookup:
  "deep_props f g ps = Some ts \<Longrightarrow> map_of ps k = Some v \<Longrightarrow>
     \<exists>t. f g v = Some t \<and> map_of ts k = Some t"
proof (induction ps arbitrary: ts)
  case Nil
  then show ?case by simp
next
  case (Cons p ps)
  obtain k' v' where p: "p = (k', v')" by (cases p)
  from Cons.prems(1) obtain t' ts' where
    t: "f g v' = Some t'" and r: "deep_props f g ps = Some ts'" and ts: "ts = (k', t') # ts'"
    by (auto simp: p split: option.splits)
  show ?case
  proof (cases "k = k'")
    case True
    then show ?thesis using Cons.prems(2) t by (simp add: p ts)
  next
    case False
    then show ?thesis using Cons.IH [OF r] Cons.prems(2) by (simp add: p ts)
  qed
qed

text \<open>
  The loop of \<^verbatim>\<open>__resetToInitial\<close>, started in a world whose snapshot \<open>i\<close> lies in cells
  \<open>lo..<hi\<close> that are as in \<open>h1\<close>, above the model \<open>s\<close>, and whose properties unfold to the
  trees \<open>T\<close> wherever those cells are present: it runs through, writes only to the model and
  to new addresses, and leaves under each key a value that unfolds to the tree of that key,
  made plain.
\<close>

lemma restore_loop_correct:
  fixes w :: "'s world"
  assumes "target w = s" and "initial w = Ref i" and "s < lo" and "lo \<le> hi"
    and "same_cells lo hi h1 (heap w)"
    and "\<And>k g. k \<in> set ks \<Longrightarrow> same_cells lo hi h1 g \<Longrightarrow>
           deep_value depth g (get_prop g i k) = Some (T k)"
  shows "\<exists>w'. restore_loop depth ks w = (Inr (), w')
     \<and> target w' = s \<and> initial w' = Ref i
     \<and> length (heap w) \<le> length (heap w')
     \<and> (\<forall>a < length (heap w). a \<noteq> s \<longrightarrow> heap w' ! a = heap w ! a)
     \<and> (\<forall>k \<in> set ks. deep_value depth (heap w') (get_prop (heap w') s k) = Some (plain (T k)))
     \<and> (\<forall>k \<in> set ks. \<forall>c. get_prop (heap w') s k = Ref c \<longrightarrow> length (heap w) \<le> c)
     \<and> (\<forall>k. k \<notin> set ks \<longrightarrow> get_prop (heap w') s k = get_prop (heap w) s k)
     \<and> dirty w' = dirty w \<and> published w' = published w \<and> calls w' = calls w
     \<and> subs w' = subs w \<and> lastErrors w' = lastErrors w \<and> strict w' = strict w"
  using assms
proof (induction ks arbitrary: w)
  case Nil
  then show ?case by simp
next
  case (Cons k ks)
  let ?val = "get_prop (heap w) i k"
  have sl: "s < length (heap w)" using Cons.prems(3,4,5) by (simp add: same_cells_def)
  have dv: "deep_value depth (heap w) ?val = Some (T k)"
    using Cons.prems(6) [of k "heap w"] Cons.prems(5) by simp
  from deepClone_correct [OF dv] obtain v new where
    dc: "deepClone depth (heap w) ?val = Some (v, heap w @ new)"
    and iso: "\<And>g. same_cells (length (heap w)) (length (heap w @ new)) (heap w @ new) g \<Longrightarrow>
               deep_value depth g v = Some (plain (T k))"
    by blast
  define wA where "wA = w\<lparr>heap := set_prop (heap w @ new) s k v\<rparr>"
  have step: "restore_loop depth (k # ks) w = restore_loop depth ks wA"
    using dc Cons.prems(1,2) by (simp add: member_def wA_def)
  have fA: "target wA = s" "initial wA = Ref i" "dirty wA = dirty w" "published wA = published w"
    "calls wA = calls w" "subs wA = subs w" "lastErrors wA = lastErrors w" "strict wA = strict w"
    "length (heap wA) = length (heap w) + length new"
    using Cons.prems(1,2) by (simp_all add: wA_def)
  have nA: "\<And>a. a \<noteq> s \<Longrightarrow> a < length (heap w) \<Longrightarrow> heap wA ! a = heap w ! a"
    by (simp add: wA_def set_prop_nth_other nth_append)
  have nA': "\<And>a. a \<noteq> s \<Longrightarrow> heap wA ! a = (heap w @ new) ! a"
    by (simp add: wA_def set_prop_nth_other)
  have scA: "same_cells lo hi h1 (heap wA)"
  proof (rule same_cellsI)
    show "hi \<le> length h1" using Cons.prems(5) by (simp add: same_cells_def)
    show "hi \<le> length (heap wA)" using Cons.prems(5) by (simp add: same_cells_def fA)
  next
    fix a assume a: "lo \<le> a" "a < hi"
    then have "a \<noteq> s" "a < length (heap w)"
      using Cons.prems(3,5) by (simp_all add: same_cells_def)
    then have "heap wA ! a = heap w ! a" by (rule nA)
    then show "heap wA ! a = h1 ! a" using same_cells_nth [OF Cons.prems(5) a] by simp
  qed
  have chA: "\<And>k' g. k' \<in> set ks \<Longrightarrow> same_cells lo hi h1 g \<Longrightarrow>
           deep_value depth g (get_prop g i k') = Some (T k')"
    using Cons.prems(6) by simp
  from Cons.IH [OF fA(1,2) Cons.prems(3,4) scA chA] obtain w' where
    r: "restore_loop depth ks wA = (Inr (), w')"
    and f: "target w' = s" "initial w' = Ref i" "dirty w' = dirty wA"
      "published w' = published wA" "calls w' = calls wA" "subs w' = subs wA"
      "lastErrors w' = lastErrors wA" "strict w' = strict wA"
    and len: "length (heap wA) \<le> length (heap w')"
    and frame: "\<And>a. a < length (heap wA) \<Longrightarrow> a \<noteq> s \<Longrightarrow> heap w' ! a = heap wA ! a"
    and vals: "\<And>k'. k' \<in> set ks \<Longrightarrow>
                 deep_value depth (heap w') (get_prop (heap w') s k') = Some (plain (T k'))"
    and fresh: "\<And>k' c. k' \<in> set ks \<Longrightarrow> get_prop (heap w') s k' = Ref c \<Longrightarrow>
                 length (heap wA) \<le> c"
    and others: "\<And>k'. k' \<notin> set ks \<Longrightarrow> get_prop (heap w') s k' = get_prop (heap wA) s k'"
    by blast
  have frame': "\<forall>a < length (heap w). a \<noteq> s \<longrightarrow> heap w' ! a = heap w ! a"
    using frame nA by (simp add: fA)
  have vk: "deep_value depth (heap w') (get_prop (heap w') s k) = Some (plain (T k))"
  proof (cases "k \<in> set ks")
    case True
    then show ?thesis by (rule vals)
  next
    case False
    have "get_prop (heap wA) s k = v"
      using sl by (simp add: wA_def get_prop_set_prop_same)
    then have g: "get_prop (heap w') s k = v" using others [OF False] by simp
    have "same_cells (length (heap w)) (length (heap w @ new)) (heap w @ new) (heap w')"
    proof (rule same_cellsI)
      show "length (heap w @ new) \<le> length (heap w @ new)" by simp
      show "length (heap w @ new) \<le> length (heap w')" using len by (simp add: fA)
    next
      fix a assume a: "length (heap w) \<le> a" "a < length (heap w @ new)"
      then have ns: "a \<noteq> s" using sl by simp
      have "heap w' ! a = heap wA ! a" using frame [of a] a ns by (simp add: fA)
      then show "heap w' ! a = (heap w @ new) ! a" using nA' [OF ns] by simp
    qed
    then show ?thesis using iso g by simp
  qed
  have fk: "\<forall>k' \<in> set (k # ks). \<forall>c. get_prop (heap w') s k' = Ref c \<longrightarrow> length (heap w) \<le> c"
  proof (intro ballI allI impI)
    fix k' c assume k': "k' \<in> set (k # ks)" and g: "get_prop (heap w') s k' = Ref c"
    show "length (heap w) \<le> c"
    proof (cases "k' \<in> set ks")
      case True
      then show ?thesis using fresh [OF True g] by (simp add: fA)
    next
      case False
      then have e: "k' = k" using k' by simp
      have "get_prop (heap wA) s k = v"
        using sl by (simp add: wA_def get_prop_set_prop_same)
      then have "v = Ref c" using others [OF False] g e by simp
      then show ?thesis using dc deepClone_fresh_any by blast
    qed
  qed
  have oth: "\<forall>k'. k' \<notin> set (k # ks) \<longrightarrow> get_prop (heap w') s k' = get_prop (heap w) s k'"
  proof (intro allI impI)
    fix k' assume n: "k' \<notin> set (k # ks)"
    then have "get_prop (heap w') s k' = get_prop (heap wA) s k'" using others by simp
    also have "\<dots> = get_prop (heap w @ new) s k'"
      using n by (simp add: wA_def get_prop_set_prop_other)
    also have "\<dots> = get_prop (heap w) s k'" using sl by (rule get_prop_append)
    finally show "get_prop (heap w') s k' = get_prop (heap w) s k'" .
  qed
  have "length (heap w) \<le> length (heap w')" using len by (simp add: fA)
  then show ?case using step r f fA frame' vk vals fk oth by auto
qed

lemma same_cells_set_prop:
  "same_cells lo hi h1 h \<Longrightarrow> a < lo \<Longrightarrow> same_cells lo hi h1 (set_prop h a k v)"
proof -
  assume s: "same_cells lo hi h1 h" and a: "a < lo"
  show "same_cells lo hi h1 (set_prop h a k v)"
  proof (rule same_cellsI)
    show "hi \<le> length h1" "hi \<le> length (set_prop h a k v)"
      using s by (simp_all add: same_cells_def)
  next
    fix b assume b: "lo \<le> b" "b < hi"
    then have "b \<noteq> a" using a by simp
    then show "set_prop h a k v ! b = h1 ! b"
      using same_cells_nth [OF s b] by (simp add: set_prop_nth_other)
  qed
qed

text \<open>
  Writes through the proxy go to the model only: the cells of a snapshot that lies above the
  model are the same after a write, a bulk update or a delete.
\<close>

lemma writes_keep_snapshot:
  fixes w :: "'s world"
  assumes "same_cells lo hi h1 (heap w)" and "target w < lo"
  shows "same_cells lo hi h1 (heap (snd (set_trap key v w)))"
    and "same_cells lo hi h1 (heap (snd (hydrate data resetDirty w)))"
    and "same_cells lo hi h1 (heap (snd (deleteProperty key w)))"
proof -
  show "same_cells lo hi h1 (heap (snd (set_trap key v w)))"
    using assms
    by (simp add: set_trap_def reflect_set_def Let_def notify_fields same_cells_set_prop)
  have loop: "same_cells lo hi h1 (heap (snd (hydrate_loop data w)))"
    using assms
  proof (induction data arbitrary: w)
    case Nil
    then show ?case by simp
  next
    case (Cons p data)
    obtain k x where p: "p = (k, x)" by (cases p)
    obtain r wa where s: "hydrate_key k x w = (r, wa)" by (cases "hydrate_key k x w")
    have a: "same_cells lo hi h1 (heap wa)" "target wa < lo"
      using Cons.prems s
      by (auto simp: hydrate_key_def Let_def same_cells_set_prop split: if_splits)
    show ?case
    proof (cases r)
      case (Inl e)
      then show ?thesis using s a by (simp add: p)
    next
      case (Inr u)
      then show ?thesis using s Cons.IH [OF a] by (simp add: p)
    qed
  qed
  then show "same_cells lo hi h1 (heap (snd (hydrate data resetDirty w)))"
    by (cases "hydrate_loop data w" rule: prod.exhaust; cases "fst (hydrate_loop data w)")
       (auto simp: hydrate_def notify_fields)
  show "same_cells lo hi h1 (heap (snd (deleteProperty key w)))"
  proof (cases "strict w \<or> \<not> target w < length (heap w)")
    case True
    then show ?thesis using assms(1)
      by (auto simp: deleteProperty_def reflect_deleteProperty_def lookup_def)
  next
    case False
    obtain kd ps where c: "heap w ! target w = (kd, ps)" by (cases "heap w ! target w")
    have h: "heap (snd (deleteProperty key w)) =
               (heap w)[target w := (kd, filter (\<lambda>p. fst p \<noteq> key) ps)]"
      using False c by (simp add: deleteProperty_def reflect_deleteProperty_def lookup_def notify_fields)
    show ?thesis unfolding h
    proof (rule same_cellsI)
      show "hi \<le> length h1" "hi \<le> length ((heap w)[target w := (kd, filter (\<lambda>p. fst p \<noteq> key) ps)])"
        using assms(1) by (simp_all add: same_cells_def)
    next
      fix b assume b: "lo \<le> b" "b < hi"
      then have "b \<noteq> target w" using assms(2) by simp
      then show "(heap w)[target w := (kd, filter (\<lambda>p. fst p \<noteq> key) ps)] ! b = h1 ! b"
        using same_cells_nth [OF assms(1) b] by simp
    qed
  qed
qed

lemma modelize_Inr:
  assumes "modelize depth ajv chain h0 s options = Inr w"
  shows "\<exists>ini h1. deepClone depth h0 (Ref s) = Some (ini, h1)
           \<and> heap w = h1 \<and> initial w = ini \<and> target w = s \<and> dirty w = []
           \<and> published w = [] \<and> calls w = [] \<and> subs w = [] \<and> lastErrors w = []
           \<and> find (\<lambda>key. key \<in> set RESERVED_NAMES) (own_keys h0 s) = None"
  using assms by (auto simp: modelize_def split: option.splits)

text \<open>
  Construction, anything that leaves the snapshot's own objects alone, then
  \<^verbatim>\<open>__resetToInitial()\<close>. Let the source object unfold to a tree \<open>t\<close> within the depth
  bound (it is finite, and nested no deeper than the call stack allows), let \<open>w\<close> be the
  wrapper built on it, and \<open>w2\<close> any later world of that wrapper in which the objects
  allocated for the snapshot are as the construction left them; the model, every object that
  existed before and every object created since may hold anything. Then the snapshot unfolds
  to \<open>plain t\<close>, its keys are those that \<^verbatim>\<open>deepClone\<close> visited in the source (all of
  them, or the elements if the source is an array), the restore returns normally, and each of
  these keys holds a value that unfolds to the tree of its value at construction, made
  plain. A restored reference is an address allocated by the restore, the restore writes to
  no existing object but the model, the other keys are untouched, the dirty set is empty and
  one notification is published.
\<close>

lemma restore_unfolds:
  fixes h0 :: heap and s :: addr and w w2 :: "'s world" and depth :: nat
  assumes src: "deep_value depth h0 (Ref s) = Some (Node kd ts)"
    and cons: "modelize depth ajv chain h0 s options = Inr w"
    and later: "target w2 = target w" "initial w2 = initial w"
      "same_cells (length h0) (length (heap w)) (heap w) (heap w2)"
  defines "w3 \<equiv> snd (resetToInitial depth w2)"
  shows "fst (resetToInitial depth w2) = Inr ()
       \<and> deep_value depth (heap w2) (initial w2) = Some (plain (Node kd ts))
       \<and> keys_of (heap w2) (initial w2) = map fst (cloned_props kd ts)
       \<and> (\<forall>k \<in> set (map fst (cloned_props kd ts)).
             deep_value depth (heap w3) (get_prop (heap w3) (target w3) k)
               = map_option plain (deep_value depth h0 (get_prop h0 s k))
             \<and> deep_value depth h0 (get_prop h0 s k) \<noteq> None)
       \<and> (\<forall>k \<in> set (map fst (cloned_props kd ts)). \<forall>c.
             get_prop (heap w3) (target w3) k = Ref c \<longrightarrow> length (heap w2) \<le> c)
       \<and> (\<forall>a < length (heap w2). a \<noteq> target w2 \<longrightarrow> heap w3 ! a = heap w2 ! a)
       \<and> (\<forall>k. k \<notin> set (map fst (cloned_props kd ts)) \<longrightarrow>
             get_prop (heap w3) (target w3) k = get_prop (heap w2) (target w2) k)
       \<and> dirty w3 = []
       \<and> (\<exists>n. published w3 = published w2 @ [n] \<and> n_event n = CHANGE_EVENT
              \<and> n_detail n = proxy w2 \<and> seen_dirty (n_seen n) = [])"
proof -
  obtain m where depth: "depth = Suc m" using src by (cases depth) simp_all
  from src obtain ps where
    c: "lookup h0 s = Some (kd, ps)" and d0: "deep_props (deep_value m) h0 ps = Some ts"
    by (auto simp: depth split: option.splits)
  define qs where "qs = cloned_props kd ps"
  define us where "us = cloned_props kd ts"
  have d: "deep_props (deep_value m) h0 qs = Some us"
    unfolding qs_def us_def using d0 by (rule deep_props_cloned)
  have kq: "map fst us = map fst qs" using d by (rule deep_props_keys)
  have s0: "s < length h0"
    using c by (simp add: lookup_def split: if_splits)
  have el: "\<And>h v t. deep_value m h v = Some t \<Longrightarrow>
      \<exists>v' new. deepClone m h v = Some (v', h @ new)
        \<and> (\<forall>g. same_cells (length h) (length (h @ new)) (h @ new) g \<longrightarrow>
                deep_value m g v' = Some (plain t))"
    by (rule deepClone_correct)
  from clone_props_correct [OF el d] obtain ps' new where
    cp: "clone_props (deepClone m) h0 qs = Some (ps', h0 @ new)"
    and keys: "map fst ps' = map fst qs"
    and iso: "\<And>g. same_cells (length h0) (length (h0 @ new)) (h0 @ new) g \<Longrightarrow>
                deep_props (deep_value m) g ps' = Some (map (map_prod id plain) us)"
    by blast
  define i where "i = length (h0 @ new)"
  define cell where "cell = (cloned_kind kd, ps')"
  define h1 where "h1 = (h0 @ new) @ [cell]"
  have dc: "deepClone depth h0 (Ref s) = Some (Ref i, h1)"
    using cp by (simp add: depth c qs_def alloc_def i_def h1_def cell_def)
  from modelize_Inr [OF cons] have
    w: "heap w = h1" "initial w = Ref i" "target w = s" using dc by auto
  have f2: "target w2 = s" "initial w2 = Ref i" using later(1,2) w by simp_all
  have sc: "same_cells (length h0) (length h1) h1 (heap w2)" using later(3) w by simp
  have i1: "length h0 \<le> i" "i < length h1" "h1 ! i = (cloned_kind kd, ps')"
    by (simp_all add: i_def h1_def cell_def del: append_assoc) (simp add: nth_append)
  have lo_hi: "length h0 \<le> length h1" by (simp add: h1_def)
  \<comment> \<open>what the snapshot holds under a key, in any heap that has the snapshot's cells\<close>
  have child: "deep_value depth g (get_prop g i k)
                 = map_option plain (deep_value depth h0 (get_prop h0 s k))
             \<and> deep_value depth h0 (get_prop h0 s k) \<noteq> None"
    if k: "k \<in> set (map fst qs)" and g: "same_cells (length h0) (length h1) h1 g" for k g
  proof -
    obtain v0 where vq: "map_of qs k = Some v0"
      using k by (metis map_of_eq_None_iff not_Some_eq set_map)
    have v0: "map_of ps k = Some v0"
      using vq k map_of_cloned_props [of k kd ps] by (simp add: qs_def)
    obtain v1 where v1: "map_of ps' k = Some v1"
      using k keys by (metis map_of_eq_None_iff not_Some_eq set_map)
    have gi: "g ! i = (cloned_kind kd, ps')" and il: "i < length g"
      using same_cells_nth [OF g i1(1,2)] i1 g by (simp_all add: same_cells_def)
    have g1: "get_prop g i k = v1" using gi il v1 by (simp add: get_prop_def lookup_def)
    have g0: "get_prop h0 s k = v0" using c v0 by (simp add: get_prop_def)
    have "same_cells (length h0) (length (h0 @ new)) ((h0 @ new) @ [cell]) g"
      using g unfolding h1_def by (rule same_cells_shrink) simp_all
    then have "same_cells (length h0) (length (h0 @ new)) (h0 @ new) g"
      by (rule same_cells_prefix) simp
    then have "deep_props (deep_value m) g ps' = Some (map (map_prod id plain) us)" by (rule iso)
    from deep_props_lookup [OF this v1] obtain t1 where
      t1: "deep_value m g v1 = Some t1" "map_of (map (map_prod id plain) us) k = Some t1" by blast
    from deep_props_lookup [OF d vq] obtain t0 where
      t0: "deep_value m h0 v0 = Some t0" "map_of us k = Some t0" by blast
    have "map_of (map (map_prod id plain) us) k = map_option plain (map_of us k)"
      by (induction us) auto
    then have e: "t1 = plain t0" using t1(2) t0(2) by simp
    have "deep_value depth g v1 = Some t1" "deep_value depth h0 v0 = Some t0"
      unfolding depth using t1(1) t0(1) by (simp_all only: deep_value_Suc)
    then show ?thesis using e by (simp add: g1 g0)
  qed
  have ok0: "map fst (cloned_props kd ts) = map fst qs" using kq by (simp add: us_def)
  have w2i: "heap w2 ! i = (cloned_kind kd, ps')" and il2: "i < length (heap w2)"
    using same_cells_nth [OF sc i1(1,2)] i1 sc by (simp_all add: same_cells_def)
  have ks: "keys_of (heap w2) (initial w2) = map fst qs"
    using w2i il2 by (simp add: keys_of_def f2 own_keys_def lookup_def keys)
  define T where "T k = plain (the (deep_value depth h0 (get_prop h0 s k)))" for k
  have chT: "deep_value depth g (get_prop g i k) = Some (T k)"
    if k: "k \<in> set (map fst qs)" and g: "same_cells (length h0) (length h1) h1 g" for k g
  proof -
    obtain t0 where "deep_value depth h0 (get_prop h0 s k) = Some t0"
      using child [OF k g] by auto
    then show ?thesis using child [OF k g] by (simp add: T_def)
  qed
  from restore_loop_correct [OF f2 s0 lo_hi sc chT] obtain w' where
    r: "restore_loop depth (map fst qs) w2 = (Inr (), w')"
    and f: "target w' = s" "dirty w' = dirty w2" "published w' = published w2"
    and vals: "\<And>k. k \<in> set (map fst qs) \<Longrightarrow>
                 deep_value depth (heap w') (get_prop (heap w') s k) = Some (plain (T k))"
    and fresh: "\<And>k c. k \<in> set (map fst qs) \<Longrightarrow> get_prop (heap w') s k = Ref c \<Longrightarrow>
                 length (heap w2) \<le> c"
    and frame: "\<And>a. a < length (heap w2) \<Longrightarrow> a \<noteq> s \<Longrightarrow> heap w' ! a = heap w2 ! a"
    and others: "\<And>k. k \<notin> set (map fst qs) \<Longrightarrow> get_prop (heap w') s k = get_prop (heap w2) s k"
    by blast
  have res: "resetToInitial depth w2 = (Inr (), notify (w'\<lparr>dirty := []\<rparr>))"
    by (simp add: resetToInitial_def ks r)
  have w3: "w3 = notify (w'\<lparr>dirty := []\<rparr>)" by (simp add: w3_def res)
  have f3: "heap w3 = heap w'" "target w3 = s" "dirty w3 = []"
    by (simp_all add: w3 notify_fields f)
  have snap: "deep_value depth (heap w2) (initial w2) = Some (plain (Node kd ts))"
  proof -
    from deepClone_correct [OF src] obtain v' new' where
      a: "deepClone depth h0 (Ref s) = Some (v', h0 @ new')"
      and b: "\<And>g. same_cells (length h0) (length (h0 @ new')) (h0 @ new') g \<Longrightarrow>
                 deep_value depth g v' = Some (plain (Node kd ts))"
      by blast
    from a dc have "v' = Ref i" "h0 @ new' = h1" by simp_all
    then show ?thesis using b [of "heap w2"] sc by (simp add: f2)
  qed
  have v3: "\<forall>k \<in> set (map fst (cloned_props kd ts)).
             deep_value depth (heap w3) (get_prop (heap w3) (target w3) k)
               = map_option plain (deep_value depth h0 (get_prop h0 s k))
             \<and> deep_value depth h0 (get_prop h0 s k) \<noteq> None"
  proof
    fix k assume "k \<in> set (map fst (cloned_props kd ts))"
    then have k: "k \<in> set (map fst qs)" by (simp only: ok0)
    obtain t0 where t0: "deep_value depth h0 (get_prop h0 s k) = Some t0"
      using child [OF k sc] by auto
    then have "plain (T k) = plain t0" by (simp add: T_def)
    then show "deep_value depth (heap w3) (get_prop (heap w3) (target w3) k)
               = map_option plain (deep_value depth h0 (get_prop h0 s k))
             \<and> deep_value depth h0 (get_prop h0 s k) \<noteq> None"
      using vals [OF k] t0 by (simp add: f3)
  qed
  have fr3: "\<forall>k \<in> set (map fst (cloned_props kd ts)). \<forall>c.
             get_prop (heap w3) (target w3) k = Ref c \<longrightarrow> length (heap w2) \<le> c"
    using fresh by (simp only: ok0) (simp add: f3)
  have fm3: "\<forall>a < length (heap w2). a \<noteq> target w2 \<longrightarrow> heap w3 ! a = heap w2 ! a"
    using frame by (simp add: f3 f2)
  have o3: "\<forall>k. k \<notin> set (map fst (cloned_props kd ts)) \<longrightarrow>
             get_prop (heap w3) (target w3) k = get_prop (heap w2) (target w2) k"
    using others by (simp only: ok0) (simp add: f3 f2)
  have n3: "\<exists>n. published w3 = published w2 @ [n] \<and> n_event n = CHANGE_EVENT
              \<and> n_detail n = proxy w2 \<and> seen_dirty (n_seen n) = []"
    by (simp add: w3 notify_published f proxy_def f2 current_seen_def)
  have ks3: "keys_of (heap w2) (initial w2) = map fst (cloned_props kd ts)"
    by (simp only: ks ok0)
  from res snap ks3 v3 fr3 fm3 o3 f3(3) n3 show ?thesis by simp
qed

text \<open>When the trees under the keys of an object are plain, so is the tree under each key.\<close>

lemma plain_child:
  assumes "deep_value depth h (Ref s) = Some (Node kd ts)" and "map (map_prod id plain) ts = ts"
    and "k \<in> set (own_keys h s)" and "deep_value depth h (get_prop h s k) = Some t0"
  shows "plain t0 = t0"
proof -
  obtain m where depth: "depth = Suc m" using assms(1) by (cases depth) simp_all
  from assms(1) obtain ps where
    c: "lookup h s = Some (kd, ps)" and d: "deep_props (deep_value m) h ps = Some ts"
    by (auto simp: depth split: option.splits)
  have "k \<in> set (map fst ps)" using assms(3) c by (simp add: own_keys_def)
  then obtain v0 where v0: "map_of ps k = Some v0"
    by (metis map_of_eq_None_iff not_Some_eq set_map)
  from deep_props_lookup [OF d v0] obtain t1 where
    t1: "deep_value m h v0 = Some t1" "map_of ts k = Some t1" by blast
  have "deep_value depth h v0 = Some t1" unfolding depth using t1(1) by (rule deep_value_Suc)
  moreover have "get_prop h s k = v0" using c v0 by (simp add: get_prop_def)
  ultimately have e: "t1 = t0" using assms(4) by simp
  have "(k, t0) \<in> set ts" using t1(2) e by (simp add: map_of_SomeD)
  with assms(2) have "map_prod id plain (k, t0) = (k, t0)" by (rule map_fixed)
  then show ?thesis by simp
qed

text \<open>
  Claim C5 asks that after \<^verbatim>\<open>__resetToInitial()\<close> every key present at construction
  holds a value deeply equal to its value at construction. The code does not do that for a
  property that holds an object that is neither an array nor a plain object:
  \<^verbatim>\<open>deepClone\<close> rebuilds such an object as a plain one. On the wrapper \<open>dated\<close>, with no
  write at all between construction and restore, the key \<^verbatim>\<open>created\<close> held a
  \<^verbatim>\<open>Date\<close> at construction and holds an empty plain object after the restore.
\<close>

theorem restore_of_date_is_plain_object:
  "modelize 4 no_ajv Object_prototype dated_heap 0
       \<lparr>o_schema = None, o_validate = None, o_strict = None\<rparr>
     = Inr dated
   \<and> deep_value 4 dated_heap (get_prop dated_heap 0 ''created'')
       = Some (Node (Exotic ''Date(0)'') [])
   \<and> fst (resetToInitial 4 dated) = Inr ()
   \<and> deep_value 4 (heap (snd (resetToInitial 4 dated)))
        (get_prop (heap (snd (resetToInitial 4 dated)))
                  (target (snd (resetToInitial 4 dated))) ''created'')
       = Some (Node PlainObject [])
   \<and> deep_value 4 (heap (snd (resetToInitial 4 dated)))
        (get_prop (heap (snd (resetToInitial 4 dated)))
                  (target (snd (resetToInitial 4 dated))) ''created'')
       \<noteq> deep_value 4 dated_heap (get_prop dated_heap 0 ''created'')"
proof -
  have c: "modelize 4 no_ajv Object_prototype dated_heap 0
       \<lparr>o_schema = None, o_validate = None, o_strict = None\<rparr>
     = Inr dated"
    by (simp add: modelize_def dated_def dated_heap_def own_keys_def lookup_def
        RESERVED_NAMES_def eval_nat_numeral alloc_def)
  have o: "deep_value 4 dated_heap (get_prop dated_heap 0 ''created'')
       = Some (Node (Exotic ''Date(0)'') [])"
    by (simp add: dated_heap_def get_prop_def lookup_def eval_nat_numeral)
  have l: "restore_loop 4 [''created''] dated =
      (Inr (), dated\<lparr>heap := [(PlainObject, [(''created'', Ref 4)]), (Exotic ''Date(0)'', []),
                              (PlainObject, []), (PlainObject, [(''created'', Ref 2)]),
                              (PlainObject, [])]\<rparr>)"
    by (simp add: dated_def dated_heap_def member_def get_prop_def set_prop_def lookup_def
        alloc_def eval_nat_numeral)
  have k: "keys_of (heap dated) (initial dated) = [''created'']"
    by (simp add: keys_of_def own_keys_def lookup_def dated_def dated_heap_def)
  have r: "resetToInitial 4 dated =
      (Inr (), notify (dated\<lparr>heap := [(PlainObject, [(''created'', Ref 4)]), (Exotic ''Date(0)'', []),
                              (PlainObject, []), (PlainObject, [(''created'', Ref 2)]),
                              (PlainObject, [])], dirty := []\<rparr>))"
    by (simp only: resetToInitial_def k l) simp
  have v: "deep_value 4 (heap (snd (resetToInitial 4 dated)))
        (get_prop (heap (snd (resetToInitial 4 dated)))
                  (target (snd (resetToInitial 4 dated))) ''created'')
       = Some (Node PlainObject [])"
    by (simp add: r notify_fields) (simp add: dated_def get_prop_def lookup_def eval_nat_numeral)
  from c o r v show ?thesis by simp
qed

text \<open>
  The round trip does hold for a source whose property values are built from primitives,
  plain objects and arrays that hold their elements only (and which, if it is an array
  itself, holds its elements only). Let such a source unfold to a tree within the depth
  bound (it is finite, and nested no deeper than the call stack allows), and let \<open>w\<close> be
  the wrapper built on it.
  Take any later world \<open>w2\<close> of that wrapper in which the objects allocated for the
  snapshot are as the construction left them; the model, every object that existed before
  and every object created since may hold anything, so the live containers may have been
  mutated in place. Then the snapshot still holds the properties the source had at
  construction, each unfolding to the same tree (the snapshot itself is an array if the
  source is one, and a plain object otherwise), and \<^verbatim>\<open>__resetToInitial()\<close> returns
  normally, after which every key the
  source had at construction holds a value that unfolds to the same tree as that key's
  value at construction did. What is put back is a copy: a restored reference is an address
  allocated by the restore, and the restore writes to no existing object but the model, so
  the snapshot stays as it was. Keys that the source did not have at construction are
  untouched, the dirty set is empty, and exactly one notification is published, which sees
  the dirty set empty.
\<close>

theorem restore_round_trip:
  fixes h0 :: heap and s :: addr and w w2 :: "'s world" and depth :: nat
  assumes src: "deep_value depth h0 (Ref s) = Some (Node kd ts)"
    and pl: "map (map_prod id plain) ts = ts" and el: "cloned_props kd ts = ts"
    and cons: "modelize depth ajv chain h0 s options = Inr w"
    and later: "target w2 = target w" "initial w2 = initial w"
      "same_cells (length h0) (length (heap w)) (heap w) (heap w2)"
  defines "w3 \<equiv> snd (resetToInitial depth w2)"
  shows "fst (resetToInitial depth w2) = Inr ()
       \<and> deep_value depth (heap w2) (initial w2) = Some (Node (cloned_kind kd) ts)
       \<and> (\<forall>k \<in> set (own_keys h0 s).
             deep_value depth (heap w3) (get_prop (heap w3) (target w3) k)
               = deep_value depth h0 (get_prop h0 s k)
             \<and> deep_value depth h0 (get_prop h0 s k) \<noteq> None)
       \<and> (\<forall>k \<in> set (own_keys h0 s). \<forall>c.
             get_prop (heap w3) (target w3) k = Ref c \<longrightarrow> length (heap w2) \<le> c)
       \<and> (\<forall>a < length (heap w2). a \<noteq> target w2 \<longrightarrow> heap w3 ! a = heap w2 ! a)
       \<and> (\<forall>k. k \<notin> set (own_keys h0 s) \<longrightarrow>
             get_prop (heap w3) (target w3) k = get_prop (heap w2) (target w2) k)
       \<and> dirty w3 = []
       \<and> (\<exists>n. published w3 = published w2 @ [n] \<and> n_event n = CHANGE_EVENT
              \<and> n_detail n = proxy w2 \<and> seen_dirty (n_seen n) = [])"
proof -
  obtain m where depth: "depth = Suc m" using src by (cases depth) simp_all
  from src obtain ps where
    c: "lookup h0 s = Some (kd, ps)" and d: "deep_props (deep_value m) h0 ps = Some ts"
    by (auto simp: depth split: option.splits)
  have "map fst ts = map fst ps" using d by (rule deep_props_keys)
  then have kt: "map fst ts = own_keys h0 s" using c by (simp add: own_keys_def)
  note u = restore_unfolds [OF src cons later, folded w3_def, unfolded el kt]
  have v: "\<forall>k \<in> set (own_keys h0 s).
             deep_value depth (heap w3) (get_prop (heap w3) (target w3) k)
               = deep_value depth h0 (get_prop h0 s k)
             \<and> deep_value depth h0 (get_prop h0 s k) \<noteq> None"
  proof
    fix k assume k: "k \<in> set (own_keys h0 s)"
    from u k obtain t0 where
      t0: "deep_value depth h0 (get_prop h0 s k) = Some t0"
      and r: "deep_value depth (heap w3) (get_prop (heap w3) (target w3) k)
               = map_option plain (deep_value depth h0 (get_prop h0 s k))"
      by blast
    have "plain t0 = t0" using src pl k t0 by (rule plain_child)
    then show "deep_value depth (heap w3) (get_prop (heap w3) (target w3) k)
               = deep_value depth h0 (get_prop h0 s k)
             \<and> deep_value depth h0 (get_prop h0 s k) \<noteq> None"
      using r t0 by simp
  qed
  have "plain (Node kd ts) = Node (cloned_kind kd) ts" by (simp only: plain.simps pl el)
  with u have "deep_value depth (heap w2) (initial w2) = Some (Node (cloned_kind kd) ts)"
    by simp
  with u v show ?thesis by blast
qed

text \<open>
  \<^verbatim>\<open>modelize({ data: { value: 1 } })\<close>, then \<^verbatim>\<open>model.data.value = 999\<close>, then the
  restore: \<^verbatim>\<open>model.data.value\<close> is 1 again.
\<close>

theorem restore_round_trip_example:
  "deep_value 4 nested_heap (Ref 0)
     = Some (Node PlainObject [(''data'', Node PlainObject [(''value'', Leaf (Num 1))])])
   \<and> map (map_prod id plain) [(''data'', Node PlainObject [(''value'', Leaf (Num 1))])]
       = [(''data'', Node PlainObject [(''value'', Leaf (Num 1))])]
   \<and> cloned_props PlainObject [(''data'', Node PlainObject [(''value'', Leaf (Num 1))])]
       = [(''data'', Node PlainObject [(''value'', Leaf (Num 1))])]
   \<and> modelize 4 no_ajv Object_prototype nested_heap 0
         \<lparr>o_schema = None, o_validate = None, o_strict = None\<rparr>
       = Inr nested
   \<and> same_cells (length nested_heap) (length (heap nested)) (heap nested) (heap nested_mutated)
   \<and> deep_value 4 (heap nested_mutated) (get_prop (heap nested_mutated) 0 ''data'')
       = Some (Node PlainObject [(''value'', Leaf (Num 999))])
   \<and> fst (resetToInitial 4 nested_mutated) = Inr ()
   \<and> deep_value 4 (heap (snd (resetToInitial 4 nested_mutated)))
        (get_prop (heap (snd (resetToInitial 4 nested_mutated)))
                  (target (snd (resetToInitial 4 nested_mutated))) ''data'')
       = Some (Node PlainObject [(''value'', Leaf (Num 1))])
   \<and> dirty (snd (resetToInitial 4 nested_mutated)) = []"
proof -
  have h1: "deep_value 4 nested_heap (Ref 0)
     = Some (Node PlainObject [(''data'', Node PlainObject [(''value'', Leaf (Num 1))])])"
    by (simp add: nested_heap_def lookup_def eval_nat_numeral)
  have h2: "modelize 4 no_ajv Object_prototype nested_heap 0
         \<lparr>o_schema = None, o_validate = None, o_strict = None\<rparr>
       = Inr nested"
    by (simp add: modelize_def nested_def nested_heap_def own_keys_def lookup_def
        RESERVED_NAMES_def eval_nat_numeral alloc_def)
  have h3: "target nested_mutated = target nested" "initial nested_mutated = initial nested"
    by (simp_all add: nested_mutated_def)
  have h4: "same_cells (length nested_heap) (length (heap nested)) (heap nested) (heap nested_mutated)"
    by (simp add: same_cells_def nested_mutated_def nested_def nested_heap_def set_prop_def
        lookup_def)
  have m: "deep_value 4 (heap nested_mutated) (get_prop (heap nested_mutated) 0 ''data'')
       = Some (Node PlainObject [(''value'', Leaf (Num 999))])"
    by (simp add: nested_mutated_def nested_def nested_heap_def set_prop_def get_prop_def
        lookup_def eval_nat_numeral)
  have k: "''data'' \<in> set (own_keys nested_heap 0)"
    by (simp add: own_keys_def lookup_def nested_heap_def)
  have o: "deep_value 4 nested_heap (get_prop nested_heap 0 ''data'')
       = Some (Node PlainObject [(''value'', Leaf (Num 1))])"
    by (simp add: nested_heap_def get_prop_def lookup_def eval_nat_numeral)
  have p: "map (map_prod id plain) [(''data'', Node PlainObject [(''value'', Leaf (Num 1))])]
             = [(''data'', Node PlainObject [(''value'', Leaf (Num 1))])]"
    by simp
  have q: "cloned_props PlainObject [(''data'', Node PlainObject [(''value'', Leaf (Num 1))])]
             = [(''data'', Node PlainObject [(''value'', Leaf (Num 1))])]"
    by simp
  from restore_round_trip [OF h1 p q h2 h3 h4] have
    r: "fst (resetToInitial 4 nested_mutated) = Inr ()"
    and v: "\<forall>k \<in> set (own_keys nested_heap 0).
             deep_value 4 (heap (snd (resetToInitial 4 nested_mutated)))
               (get_prop (heap (snd (resetToInitial 4 nested_mutated)))
                  (target (snd (resetToInitial 4 nested_mutated))) k)
               = deep_value 4 nested_heap (get_prop nested_heap 0 k)
             \<and> deep_value 4 nested_heap (get_prop nested_heap 0 k) \<noteq> None"
    and d: "dirty (snd (resetToInitial 4 nested_mutated)) = []"
    by blast+
  from v k o have "deep_value 4 (heap (snd (resetToInitial 4 nested_mutated)))
        (get_prop (heap (snd (resetToInitial 4 nested_mutated)))
                  (target (snd (resetToInitial 4 nested_mutated))) ''data'')
       = Some (Node PlainObject [(''value'', Leaf (Num 1))])"
    by simp
  with h1 p h2 h4 m r d show ?thesis by simp
qed

end
